theory Spec2Isabelle
  imports Complex_Main
begin

unbundle bit_operations_syntax

section \<open>Data model\<close>

text \<open>
  A Python \<open>str\<close> is a sequence of code points, so a message is a list of naturals
  (\<open>ord\<close> and \<open>chr\<close> are the identity on it). The strings of \<open>'0'\<close> and \<open>'1'\<close> that
  the codec builds are lists of booleans, \<open>True\<close> standing for \<open>'1'\<close>.
\<close>

type_synonym pystr = "nat list"
type_synonym bitstr = "bool list"

text \<open>
  What \<open>getpixel\<close> returns: an \<open>int\<close> for a single-band image, a tuple of \<open>int\<close>s
  for a multi-band one.
\<close>

datatype pixel = Gray int | Multi "int list"

text \<open>
  A PIL image object: its mode, its size and its pixels in row-major order. \<open>Image.open\<close>
  reads only the header of the file; the pixel data is decoded by \<open>load\<close>, which
  \<open>convert\<close>, \<open>copy\<close>, \<open>getpixel\<close>, \<open>putpixel\<close> and \<open>save\<close> call first and which raises
  \<open>OSError\<close> when the data of the file is truncated or corrupt. The field \<open>loadable\<close>
  says whether \<open>load\<close> succeeds on the object; it is true of every image made in memory.
\<close>

record image =
  mode :: string
  width :: nat
  height :: nat
  pixels :: "pixel list"
  loadable :: bool

datatype error = FileNotFoundError | UnidentifiedImageError | IndexError | OSError

text \<open>
  A file on disk: a file with the header of an image (with the size of the file in bytes;
  its data may be undecodable, see \<open>loadable\<close>) or something else.
\<close>

datatype disk_file = ImageFile image nat | OtherFile nat

type_synonym filesystem = "string \<Rightarrow> disk_file option"

text \<open>
  What the repository does not determine: the colour conversion of
  \<open>Image.convert('RGB')\<close> on an image of another mode, the number of bytes the PNG writer
  produces, and the paths at which \<open>save\<close> can write a file (it raises \<open>OSError\<close> at the
  others: a missing directory, no permission, a full disk).
\<close>

record pil =
  convert :: "image \<Rightarrow> image"
  png_size :: "image \<Rightarrow> nat"
  can_save :: "string \<Rightarrow> bool"

text \<open>The lines the encoder prints.\<close>

datatype line =
    Converting string
  | MessageTooLarge nat nat
  | EncodingMessage nat nat
  | ImageCapacity nat nat
  | PixelError nat nat error
  | EncodedSuccessfully nat
  | SavedAs string
  | VerificationSuccessful
  | VerificationWarning
  | ErrorEncoding error

section \<open>Library operations\<close>

text \<open>
  \<open>Image.open\<close> raises for a missing file and for a file that it cannot identify as an
  image. It does not decode the pixel data.
\<close>

definition Image_open :: "filesystem \<Rightarrow> string \<Rightarrow> error + image" where
  "Image_open fs path =
     (case fs path of
        None \<Rightarrow> Inl FileNotFoundError
      | Some (OtherFile n) \<Rightarrow> Inl UnidentifiedImageError
      | Some (ImageFile img n) \<Rightarrow> Inr img)"

definition os_path_getsize :: "filesystem \<Rightarrow> string \<Rightarrow> error + nat" where
  "os_path_getsize fs path =
     (case fs path of
        None \<Rightarrow> Inl FileNotFoundError
      | Some (OtherFile n) \<Rightarrow> Inr n
      | Some (ImageFile img n) \<Rightarrow> Inr n)"

text \<open>\<open>img.load()\<close>.\<close>

definition Image_load :: "image \<Rightarrow> error + image" where
  "Image_load img = (if loadable img then Inr img else Inl OSError)"

text \<open>
  \<open>img.convert('RGB')\<close>: the image is loaded; one that is already RGB is copied as it
  is. The result is an image in memory.
\<close>

definition Image_convert_RGB :: "pil \<Rightarrow> image \<Rightarrow> error + image" where
  "Image_convert_RGB lib img =
     (case Image_load img of
        Inl e \<Rightarrow> Inl e
      | Inr loaded \<Rightarrow>
          Inr (if mode loaded = ''RGB'' then loaded
               else (convert lib loaded)\<lparr>loadable := True\<rparr>))"

text \<open>\<open>img.copy()\<close>: the image is loaded; the copy is another object with the same contents.\<close>

definition Image_copy :: "image \<Rightarrow> error + image" where
  "Image_copy img = Image_load img"

text \<open>
  \<open>img.save(path, format='PNG')\<close>. PNG is lossless, so the file holds the image as it
  is. The write raises where the file cannot be written. The files are then taken to be as
  they were, which is what happens when the file cannot be opened for writing; no statement
  below depends on what a failed write leaves at its path.
\<close>

definition Image_save :: "pil \<Rightarrow> filesystem \<Rightarrow> string \<Rightarrow> image \<Rightarrow> error + filesystem" where
  "Image_save lib fs path img =
     (case Image_load img of
        Inl e \<Rightarrow> Inl e
      | Inr loaded \<Rightarrow>
          if can_save lib path
          then Inr (fs(path := Some (ImageFile loaded (png_size lib loaded))))
          else Inl OSError)"

text \<open>
  \<open>getpixel\<close> and \<open>putpixel\<close> load the image, and raise \<open>IndexError\<close> outside the
  image.
\<close>

definition getpixel :: "image \<Rightarrow> nat \<times> nat \<Rightarrow> error + pixel" where
  "getpixel img xy =
     (case xy of (x, y) \<Rightarrow>
        if \<not> loadable img then Inl OSError
        else if x < width img \<and> y < height img \<and> y * width img + x < length (pixels img)
        then Inr (pixels img ! (y * width img + x))
        else Inl IndexError)"

definition putpixel :: "image \<Rightarrow> nat \<times> nat \<Rightarrow> pixel \<Rightarrow> error + image" where
  "putpixel img xy v =
     (case xy of (x, y) \<Rightarrow>
        if \<not> loadable img then Inl OSError
        else if x < width img \<and> y < height img \<and> y * width img + x < length (pixels img)
        then Inr (img\<lparr>pixels := (pixels img)[y * width img + x := v]\<rparr>)
        else Inl IndexError)"

section \<open>Strings and bits\<close>

definition delimiter :: pystr where
  "delimiter = [35, 35, 35]"

text \<open>The binary digits of a number, most significant first.\<close>

fun bin :: "nat \<Rightarrow> bitstr" where
  "bin n = (if n < 2 then [odd n] else bin (n div 2) @ [odd n])"

declare bin.simps [simp del]

text \<open>\<open>format(n, "08b")\<close>: the digits, padded with zeros on the left to at least 8.\<close>

definition format_08b :: "nat \<Rightarrow> bitstr" where
  "format_08b n = replicate (8 - length (bin n)) False @ bin n"

definition to_binary :: "pystr \<Rightarrow> bitstr" where
  "to_binary message = concat (map format_08b message)"

text \<open>\<open>int(byte, 2)\<close>.\<close>

definition int_base2 :: "bitstr \<Rightarrow> nat" where
  "int_base2 byte = foldl (\<lambda>a b. 2 * a + of_bool b) 0 byte"

text \<open>\<open>range(0, n, 8)\<close>.\<close>

definition range8 :: "nat \<Rightarrow> nat list" where
  "range8 n = map (\<lambda>k. 8 * k) [0..<(n + 7) div 8]"

definition endswith :: "'a list \<Rightarrow> 'a list \<Rightarrow> bool" where
  "endswith s suffix = (length suffix \<le> length s \<and> drop (length s - length suffix) s = suffix)"

text \<open>\<open>sub in s\<close>.\<close>

fun contains :: "'a list \<Rightarrow> 'a list \<Rightarrow> bool" where
  "contains [] sub = (sub = [])"
| "contains (x # xs) sub = (take (length sub) (x # xs) = sub \<or> contains xs sub)"

text \<open>\<open>str(v & 1)\<close> as a bit.\<close>

definition lsb :: "int \<Rightarrow> bool" where
  "lsb v = (v AND 1 = 1)"

section \<open>verify_encoding\<close>

fun verify_channels :: "nat \<Rightarrow> int list \<Rightarrow> nat list \<Rightarrow> bitstr \<Rightarrow> bitstr" where
  "verify_channels total_bits_needed pixel_list [] binary_data = binary_data"
| "verify_channels total_bits_needed pixel_list (i # is) binary_data =
     verify_channels total_bits_needed pixel_list is
       (if length binary_data < total_bits_needed
        then binary_data @ [lsb (pixel_list ! i)] else binary_data)"

text \<open>A pixel that cannot be read is skipped (the bare \<open>except: continue\<close>).\<close>

definition verify_pixel :: "image \<Rightarrow> nat \<Rightarrow> nat \<Rightarrow> nat \<Rightarrow> bitstr \<Rightarrow> bitstr" where
  "verify_pixel encoded_image total_bits_needed row col binary_data =
     (case getpixel encoded_image (col, row) of
        Inl e \<Rightarrow> binary_data
      | Inr (Gray pixel_value) \<Rightarrow> binary_data @ [lsb pixel_value]
      | Inr (Multi pixel_list) \<Rightarrow>
          verify_channels total_bits_needed pixel_list
            [0..<min 3 (length pixel_list)] binary_data)"

fun verify_cols :: "image \<Rightarrow> nat \<Rightarrow> nat \<Rightarrow> nat list \<Rightarrow> bitstr \<Rightarrow> bitstr" where
  "verify_cols encoded_image total_bits_needed row [] binary_data = binary_data"
| "verify_cols encoded_image total_bits_needed row (col # cols) binary_data =
     (if length binary_data \<ge> total_bits_needed then binary_data
      else verify_cols encoded_image total_bits_needed row cols
             (verify_pixel encoded_image total_bits_needed row col binary_data))"

fun verify_rows :: "image \<Rightarrow> nat \<Rightarrow> nat list \<Rightarrow> bitstr \<Rightarrow> bitstr" where
  "verify_rows encoded_image total_bits_needed [] binary_data = binary_data"
| "verify_rows encoded_image total_bits_needed (row # rows) binary_data =
     (let binary_data' =
            verify_cols encoded_image total_bits_needed row [0..<width encoded_image] binary_data
      in if length binary_data' \<ge> total_bits_needed then binary_data'
         else verify_rows encoded_image total_bits_needed rows binary_data')"

fun verify_chars :: "bitstr \<Rightarrow> nat list \<Rightarrow> pystr \<Rightarrow> pystr" where
  "verify_chars binary_data [] decoded_message = decoded_message"
| "verify_chars binary_data (i # is) decoded_message =
     (if i + 8 \<le> length binary_data then
        (let decoded_message' = decoded_message @ [int_base2 (take 8 (drop i binary_data))]
         in if endswith decoded_message' delimiter then decoded_message'
            else verify_chars binary_data is decoded_message')
      else verify_chars binary_data is decoded_message)"

definition verify_encoding :: "image \<Rightarrow> pystr \<Rightarrow> bool" where
  "verify_encoding encoded_image original_message =
     (let total_bits_needed = (length original_message + 3) * 8;
          binary_data = verify_rows encoded_image total_bits_needed [0..<height encoded_image] [];
          decoded_message = verify_chars binary_data (range8 (length binary_data)) []
      in if contains decoded_message delimiter
         then take (length decoded_message - 3) decoded_message = original_message
         else False)"

section \<open>encode_image\<close>

text \<open>
  The encoder works on image objects that \<open>putpixel\<close> changes in place, so its state holds
  an object store: a reference is an index into \<open>heap\<close>. An exception that leaves the
  loops is the field \<open>raised\<close>.
\<close>

record enc_state =
  heap :: "image list"
  index :: nat
  modified_pixels :: nat
  printed :: "line list"
  raised :: "error option"

text \<open>The loop over the first three channels of one pixel.\<close>

fun set_channels :: "bitstr \<Rightarrow> nat list \<Rightarrow> int list \<times> nat \<Rightarrow> int list \<times> nat" where
  "set_channels binary_message [] (pixel, idx) = (pixel, idx)"
| "set_channels binary_message (i # is) (pixel, idx) =
     (if idx < length binary_message then
        (let old_bit = (pixel ! i) AND 1;
             new_bit = of_bool (binary_message ! idx)
         in set_channels binary_message is
              (if old_bit \<noteq> new_bit then pixel[i := ((pixel ! i) AND NOT 1) OR new_bit] else pixel,
               idx + 1))
      else set_channels binary_message is (pixel, idx))"

text \<open>
  The body of the inner loop up to the test for \<open>break\<close>. The boolean says that the
  \<open>continue\<close> of the inner \<open>except\<close> was taken, which skips that test.
\<close>

definition encode_pixel ::
  "bitstr \<Rightarrow> nat \<Rightarrow> nat \<Rightarrow> nat \<Rightarrow> nat \<Rightarrow> enc_state \<Rightarrow> bool \<times> enc_state" where
  "encode_pixel binary_message image0 encoded row col s =
     (if index s < length binary_message then
        (case getpixel (heap s ! image0) (col, row) of
           Inl e \<Rightarrow> (False, s\<lparr>raised := Some e\<rparr>)
         | Inr (Gray pixel_value) \<Rightarrow>
             (case putpixel (heap s ! encoded) (col, row)
                     (Gray ((pixel_value AND NOT 1) OR of_bool (binary_message ! index s))) of
                Inl e \<Rightarrow> (False, s\<lparr>raised := Some e\<rparr>)
              | Inr img \<Rightarrow>
                  (False, s\<lparr>heap := (heap s)[encoded := img], index := index s + 1,
                            modified_pixels := modified_pixels s + 1\<rparr>))
         | Inr (Multi pixel_value) \<Rightarrow>
             (case set_channels binary_message [0..<min 3 (length pixel_value)]
                     (pixel_value, index s) of
                (pixel, idx) \<Rightarrow>
                  (case putpixel (heap s ! encoded) (col, row) (Multi pixel) of
                     Inl e \<Rightarrow>
                       (True, s\<lparr>index := idx, printed := printed s @ [PixelError col row e]\<rparr>)
                   | Inr img \<Rightarrow>
                       (False, s\<lparr>heap := (heap s)[encoded := img], index := idx,
                                 modified_pixels := modified_pixels s + 1\<rparr>))))
      else (False, s))"

fun encode_cols ::
  "bitstr \<Rightarrow> nat \<Rightarrow> nat \<Rightarrow> nat \<Rightarrow> nat list \<Rightarrow> enc_state \<Rightarrow> enc_state" where
  "encode_cols binary_message image0 encoded row [] s = s"
| "encode_cols binary_message image0 encoded row (col # cols) s =
     (case encode_pixel binary_message image0 encoded row col s of
        (continued, s') \<Rightarrow>
          if raised s' \<noteq> None then s'
          else if continued then encode_cols binary_message image0 encoded row cols s'
          else if index s' \<ge> length binary_message then s'
          else encode_cols binary_message image0 encoded row cols s')"

fun encode_rows ::
  "bitstr \<Rightarrow> nat \<Rightarrow> nat \<Rightarrow> nat \<Rightarrow> nat list \<Rightarrow> enc_state \<Rightarrow> enc_state" where
  "encode_rows binary_message image0 encoded w [] s = s"
| "encode_rows binary_message image0 encoded w (row # rows) s =
     (let s' = encode_cols binary_message image0 encoded row [0..<w] s
      in if raised s' \<noteq> None then s'
         else if index s' \<ge> length binary_message then s'
         else encode_rows binary_message image0 encoded w rows s')"

text \<open>
  What a call leaves behind: the value returned, the files, the lines printed, and the
  image objects the call created (\<open>carrier\<close> is the object that \<open>image\<close> names when the
  loop starts, \<open>target\<close> the object that \<open>encoded\<close> names there; both are 0 in a call
  that ends before the copy is made). Every exception is caught by the outer \<open>except\<close>,
  which prints it and returns \<open>False\<close>.
\<close>

record outcome =
  returned :: bool
  files :: filesystem
  stdout :: "line list"
  objects :: "image list"
  carrier :: nat
  target :: nat

definition encode_image :: "pil \<Rightarrow> filesystem \<Rightarrow> string \<Rightarrow> pystr \<Rightarrow> string \<Rightarrow> outcome" where
  "encode_image lib fs image_path message output_path =
     (case Image_open fs image_path of
        Inl e \<Rightarrow>
          \<lparr>returned = False, files = fs, stdout = [ErrorEncoding e], objects = [],
           carrier = 0, target = 0\<rparr>
      | Inr opened \<Rightarrow>
          (let out1 = (if mode opened \<noteq> ''RGB'' then [Converting (mode opened)] else [])
           in case (if mode opened \<noteq> ''RGB'' then Image_convert_RGB lib opened
                    else Inr opened) of
                Inl e \<Rightarrow>
                  \<lparr>returned = False, files = fs, stdout = out1 @ [ErrorEncoding e],
                   objects = [opened], carrier = 0, target = 0\<rparr>
              | Inr converted \<Rightarrow>
                  (let h1 = (if mode opened \<noteq> ''RGB'' then [opened, converted] else [opened]);
                       image0 = (if mode opened \<noteq> ''RGB'' then 1 else 0)
                   in case Image_copy (h1 ! image0) of
                        Inl e \<Rightarrow>
                          \<lparr>returned = False, files = fs, stdout = out1 @ [ErrorEncoding e],
                           objects = h1, carrier = 0, target = 0\<rparr>
                      | Inr copied \<Rightarrow>
                          (let h2 = h1 @ [copied];
                               encoded = length h1;
                               w = width (h2 ! image0);
                               h = height (h2 ! image0);
                               original_message = message;
                               binary_message = to_binary (message @ delimiter);
                               max_capacity = w * h * 3
                           in if length binary_message > max_capacity then
                                \<lparr>returned = False, files = fs,
                                 stdout = out1 @
                                   [MessageTooLarge (max_capacity div 8)
                                      (length original_message)],
                                 objects = h2, carrier = image0, target = encoded\<rparr>
                              else
                                (let out2 = out1 @
                                       [EncodingMessage (length original_message)
                                          (length binary_message),
                                        ImageCapacity max_capacity (max_capacity div 8)];
                                     s = encode_rows binary_message image0 encoded w [0..<h]
                                           \<lparr>heap = h2, index = 0, modified_pixels = 0,
                                            printed = out2, raised = None\<rparr>
                                 in case raised s of
                                      Some e \<Rightarrow>
                                        \<lparr>returned = False, files = fs,
                                         stdout = printed s @ [ErrorEncoding e],
                                         objects = heap s, carrier = image0, target = encoded\<rparr>
                                    | None \<Rightarrow>
                                        (let verification_success =
                                               verify_encoding (heap s ! encoded) original_message
                                         in case Image_convert_RGB lib (heap s ! encoded) of
                                              Inl e \<Rightarrow>
                                                \<lparr>returned = False, files = fs,
                                                 stdout = printed s @ [ErrorEncoding e],
                                                 objects = heap s, carrier = image0,
                                                 target = encoded\<rparr>
                                            | Inr saved \<Rightarrow>
                                                (case Image_save lib fs output_path saved of
                                                   Inl e \<Rightarrow>
                                                     \<lparr>returned = False, files = fs,
                                                      stdout = printed s @ [ErrorEncoding e],
                                                      objects = heap s @ [saved],
                                                      carrier = image0, target = encoded\<rparr>
                                                 | Inr fs' \<Rightarrow>
                                                     \<lparr>returned = True, files = fs',
                                                      stdout = printed s @
                                                        [EncodedSuccessfully (modified_pixels s),
                                                         SavedAs ''PNG'',
                                                         if verification_success
                                                         then VerificationSuccessful
                                                         else VerificationWarning],
                                                      objects = heap s @ [saved],
                                                      carrier = image0,
                                                      target = encoded\<rparr>)))))))"

section \<open>decode_image\<close>

text \<open>A pixel that cannot be read is skipped (\<open>except Exception: continue\<close>).\<close>

definition decode_pixel :: "image \<Rightarrow> nat \<Rightarrow> nat \<Rightarrow> bitstr \<Rightarrow> bitstr" where
  "decode_pixel image0 row col binary_data =
     (case getpixel image0 (col, row) of
        Inl e \<Rightarrow> binary_data
      | Inr (Gray pixel_value) \<Rightarrow> binary_data @ [lsb pixel_value]
      | Inr (Multi pixel_list) \<Rightarrow>
          foldl (\<lambda>bd i. bd @ [lsb (pixel_list ! i)]) binary_data
            [0..<min 3 (length pixel_list)])"

definition decode_bits :: "image \<Rightarrow> bitstr" where
  "decode_bits image0 =
     foldl (\<lambda>bd row. foldl (\<lambda>bd' col. decode_pixel image0 row col bd') bd [0..<width image0])
       [] [0..<height image0]"

text \<open>
  The search for the delimiter: either the loop returns the message, or it ends with the
  characters it has decoded. The \<open>ValueError\<close> branch of the source is not reachable,
  \<open>int(byte, 2)\<close> of eight binary digits being below 256.
\<close>

datatype scan = Returned pystr | Exhausted pystr

fun decode_chars :: "bitstr \<Rightarrow> nat list \<Rightarrow> pystr \<Rightarrow> scan" where
  "decode_chars binary_data [] decoded_message = Exhausted decoded_message"
| "decode_chars binary_data (i # is) decoded_message =
     (if i + 8 \<le> length binary_data then
        (let decoded_message' = decoded_message @ [int_base2 (take 8 (drop i binary_data))]
         in if length decoded_message' \<ge> 3 \<and>
               drop (length decoded_message' - 3) decoded_message' = delimiter
            then Returned (take (length decoded_message' - 3) decoded_message')
            else decode_chars binary_data is decoded_message')
      else decode_chars binary_data is decoded_message)"

text \<open>
  \<open>len(printable_chars) > len(decoded_message) * 0.5\<close> compares an integer with half of
  an integer; it is written here without the division.
\<close>

definition decode_message :: "bitstr \<Rightarrow> pystr option" where
  "decode_message binary_data =
     (if length binary_data < 8 then None
      else
        (case decode_chars binary_data (range8 (min (length binary_data) 50000)) [] of
           Returned m \<Rightarrow> Some m
         | Exhausted decoded_message \<Rightarrow>
             (if decoded_message \<noteq> [] \<and> length decoded_message > 2 then
                (let printable_chars = filter (\<lambda>c. 32 \<le> c \<and> c \<le> 126) decoded_message
                 in if 2 * length printable_chars > length decoded_message
                    then Some printable_chars else None)
              else None)))"

definition decode_image :: "filesystem \<Rightarrow> string \<Rightarrow> pystr option" where
  "decode_image fs image_path =
     (case Image_open fs image_path of
        Inl e \<Rightarrow> None
      | Inr image0 \<Rightarrow> decode_message (decode_bits image0))"

section \<open>analyze_image_capacity\<close>

record capacity_info =
  image_dimensions :: "nat \<times> nat"
  max_bits :: int
  max_characters :: int
  file_size_kb :: rat

definition analyze_image_capacity :: "filesystem \<Rightarrow> string \<Rightarrow> capacity_info option" where
  "analyze_image_capacity fs image_path =
     (case Image_open fs image_path of
        Inl e \<Rightarrow> None
      | Inr image0 \<Rightarrow>
          (let total_bits = int (width image0) * int (height image0) * 3;
               max_chars = total_bits div 8;
               usable_chars = max_chars - 3
           in case os_path_getsize fs image_path of
                Inl e \<Rightarrow> None
              | Inr n \<Rightarrow>
                  Some \<lparr>image_dimensions = (width image0, height image0),
                        max_bits = total_bits,
                        max_characters = usable_chars,
                        file_size_kb = of_nat n / 1024\<rparr>))"

section \<open>Definitions used in the proofs\<close>

text \<open>The write of one channel: the value is replaced only where its last bit differs.\<close>

definition put_lsb :: "int \<Rightarrow> bool \<Rightarrow> int" where
  "put_lsb v b = (if v AND 1 \<noteq> of_bool b then (v AND NOT 1) OR of_bool b else v)"

text \<open>
  A three-channel pixel, and an image as the encoder has it after the conversion: loaded,
  of mode RGB, with one three-channel pixel for every position.
\<close>

definition is_rgb :: "pixel \<Rightarrow> bool" where
  "is_rgb p = (case p of Gray v \<Rightarrow> False | Multi cs \<Rightarrow> length cs = 3)"

definition rgb_image :: "image \<Rightarrow> bool" where
  "rgb_image img =
     (loadable img \<and> mode img = ''RGB'' \<and> length (pixels img) = width img * height img
      \<and> list_all is_rgb (pixels img))"

text \<open>
  The image that \<open>image\<close> names when the loop starts, for a carrier that loads: the
  image as opened, converted if its mode is not RGB.
\<close>

definition as_rgb :: "pil \<Rightarrow> image \<Rightarrow> image" where
  "as_rgb lib img =
     (if mode img = ''RGB'' then img else (convert lib img)\<lparr>loadable := True\<rparr>)"

text \<open>
  What the loop writes for the pixel whose first bit has index \<open>idx\<close>, the pixels of
  \<open>encoded\<close> once the first \<open>k\<close> pixels have been visited, and the state of the loop
  at that moment.
\<close>

definition write_pixel :: "bitstr \<Rightarrow> nat \<Rightarrow> pixel \<Rightarrow> pixel" where
  "write_pixel bm idx p =
     (case p of
        Gray v \<Rightarrow> Gray ((v AND NOT 1) OR of_bool (bm ! idx))
      | Multi cs \<Rightarrow> Multi (fst (set_channels bm [0..<min 3 (length cs)] (cs, idx))))"

definition embedded :: "bitstr \<Rightarrow> nat \<Rightarrow> pixel list \<Rightarrow> pixel list" where
  "embedded bm k ps =
     map (\<lambda>j. if j < k \<and> 3 * j < length bm then write_pixel bm (3 * j) (ps ! j) else ps ! j)
       [0..<length ps]"

definition loop_state ::
  "bitstr \<Rightarrow> image list \<Rightarrow> nat \<Rightarrow> line list \<Rightarrow> image \<Rightarrow> nat \<Rightarrow> enc_state" where
  "loop_state bm h encoded out img k =
     \<lparr>heap = h[encoded := img\<lparr>pixels := embedded bm k (pixels img)\<rparr>],
      index = min (3 * k) (length bm),
      modified_pixels = min k ((length bm + 2) div 3),
      printed = out, raised = None\<rparr>"

definition encoded_image :: "bitstr \<Rightarrow> image \<Rightarrow> image" where
  "encoded_image bm img = img\<lparr>pixels := embedded bm (height img * width img) (pixels img)\<rparr>"

text \<open>The capacity as both \<open>encode_image\<close> and \<open>analyze_image_capacity\<close> compute it.\<close>

definition max_capacity :: "image \<Rightarrow> nat" where
  "max_capacity img = width img * height img * 3"

definition usable_characters :: "image \<Rightarrow> int" where
  "usable_characters img = int (max_capacity img div 8) - 3"

text \<open>
  An input path that cannot be opened as an image, or that names an image whose pixel data
  cannot be decoded.
\<close>

definition unreadable :: "filesystem \<Rightarrow> string \<Rightarrow> bool" where
  "unreadable fs path =
     (case Image_open fs path of Inl e \<Rightarrow> True | Inr img \<Rightarrow> \<not> loadable img)"

text \<open>Two object stores that differ at most in the object \<open>encoded\<close>.\<close>

definition same_elsewhere :: "nat \<Rightarrow> image list \<Rightarrow> image list \<Rightarrow> bool" where
  "same_elsewhere encoded h h' =
     (length h' = length h \<and> (\<forall>r < length h. r \<noteq> encoded \<longrightarrow> h' ! r = h ! r))"

text \<open>
  The bits that the decoder reads from one pixel and from a list of pixels, the characters
  that a string of bits spells (eight bits each), and the search for the delimiter on
  characters.
\<close>

definition pixel_bits :: "pixel \<Rightarrow> bitstr" where
  "pixel_bits p = (case p of Gray v \<Rightarrow> [lsb v] | Multi cs \<Rightarrow> map lsb (take 3 cs))"

definition lsb_stream :: "pixel list \<Rightarrow> bitstr" where
  "lsb_stream ps = concat (map pixel_bits ps)"

definition chars_of :: "bitstr \<Rightarrow> pystr" where
  "chars_of bits = map (\<lambda>k. int_base2 (take 8 (drop (8 * k) bits))) [0..<length bits div 8]"

fun scan_chars :: "pystr \<Rightarrow> pystr \<Rightarrow> scan" where
  "scan_chars dm [] = Exhausted dm"
| "scan_chars dm (c # cs) =
     (if length (dm @ [c]) \<ge> 3 \<and> drop (length (dm @ [c]) - 3) (dm @ [c]) = delimiter
      then Returned (take (length (dm @ [c]) - 3) (dm @ [c]))
      else scan_chars (dm @ [c]) cs)"

section \<open>Fixtures\<close>

text \<open>
  A stand-in for the library, used where a statement is evaluated on a concrete input:
  a conversion that repeats a grey value on three channels and keeps the first three
  channels of a multi-band pixel, and a writer that can write everywhere.
\<close>

definition to_rgb :: "pixel \<Rightarrow> pixel" where
  "to_rgb p = (case p of Gray v \<Rightarrow> Multi [v, v, v] | Multi cs \<Rightarrow> Multi (take 3 cs))"

definition demo_pil :: pil where
  "demo_pil = \<lparr>convert = (\<lambda>img. img\<lparr>mode := ''RGB'', pixels := map to_rgb (pixels img)\<rparr>),
               png_size = (\<lambda>img. 64 + 3 * length (pixels img)),
               can_save = (\<lambda>path. True)\<rparr>"

definition blank :: "nat \<Rightarrow> nat \<Rightarrow> image" where
  "blank w h = \<lparr>mode = ''RGB'', width = w, height = h,
               pixels = replicate (w * h) (Multi [0, 0, 0]), loadable = True\<rparr>"

text \<open>An image file cut off after its header: the size is known, the data does not decode.\<close>

definition truncated :: "nat \<Rightarrow> nat \<Rightarrow> image" where
  "truncated w h = \<lparr>mode = ''RGB'', width = w, height = h, pixels = [], loadable = False\<rparr>"

text \<open>A writer that can write nowhere.\<close>

definition read_only_pil :: pil where
  "read_only_pil = demo_pil\<lparr>can_save := (\<lambda>path. False)\<rparr>"

definition no_files :: filesystem where
  "no_files = (\<lambda>p. None)"

definition one_image :: "image \<Rightarrow> filesystem" where
  "one_image img = no_files(''in.png'' := Some (ImageFile img 100))"


text \<open>
  A single-band image of one row whose pixels carry the given bits, and the one whose bits
  spell the four characters \<open>"ab\x00\x01"\<close>: no delimiter, and exactly half of the
  characters printable.
\<close>

definition gray_row :: "bitstr \<Rightarrow> image" where
  "gray_row bits = \<lparr>mode = ''L'', width = length bits, height = 1,
                     pixels = map (\<lambda>b. Gray (of_bool b)) bits, loadable = True\<rparr>"

definition half_printable :: image where
  "half_printable = gray_row (to_binary [97, 98, 0, 1])"

section \<open>The encoder loop\<close>

lemma lsb_odd: "lsb v = odd v"
  by (simp add: lsb_def and_one_eq mod_2_eq_odd)

lemma lsb_put_lsb [simp]: "lsb (put_lsb v b) = b"
  by (cases b) (auto simp: put_lsb_def lsb_odd even_or_iff even_and_iff and_one_eq mod_2_eq_odd)

lemma set_channels_Cons:
  "set_channels bm (i # is) (cs, idx) =
     (if idx < length bm then set_channels bm is (cs[i := put_lsb (cs ! i) (bm ! idx)], idx + 1)
      else set_channels bm is (cs, idx))"
  by (simp add: Let_def put_lsb_def)

lemma set_channels_done:
  "length bm \<le> idx \<Longrightarrow> set_channels bm is (cs, idx) = (cs, idx)"
  by (induction "is") simp_all

declare set_channels.simps(2) [simp del]

lemma set_channels_rgb:
  "set_channels bm [0..<min 3 (length [r, g, b])] ([r, g, b], idx) =
     ([if idx < length bm then put_lsb r (bm ! idx) else r,
       if Suc idx < length bm then put_lsb g (bm ! Suc idx) else g,
       if Suc (Suc idx) < length bm then put_lsb b (bm ! Suc (Suc idx)) else b],
      min (idx + 3) (max idx (length bm)))"
proof -
  have u: "[0..<min 3 (length [r, g, b])] = [0, Suc 0, Suc (Suc 0)]"
    by (simp add: upt_rec)
  consider "Suc (Suc idx) < length bm"
    | "Suc idx < length bm" "\<not> Suc (Suc idx) < length bm"
    | "idx < length bm" "\<not> Suc idx < length bm"
    | "\<not> idx < length bm"
    by arith
  then show ?thesis
  proof cases
    case 1
    then show ?thesis unfolding u by (simp add: set_channels_Cons)
  next
    case 2
    then show ?thesis unfolding u by (simp add: set_channels_Cons)
  next
    case 3
    then show ?thesis unfolding u by (simp add: set_channels_Cons)
  next
    case 4
    then show ?thesis by (simp add: set_channels_done)
  qed
qed

lemma length_embedded [simp]: "length (embedded bm k ps) = length ps"
  by (simp add: embedded_def)

lemma embedded_step:
  assumes "3 * k < length bm" and "k < length ps"
  shows "(embedded bm k ps)[k := write_pixel bm (3 * k) (ps ! k)] = embedded bm (Suc k) ps"
proof (rule nth_equalityI)
  show "length ((embedded bm k ps)[k := write_pixel bm (3 * k) (ps ! k)])
          = length (embedded bm (Suc k) ps)"
    by simp
next
  fix j assume "j < length ((embedded bm k ps)[k := write_pixel bm (3 * k) (ps ! k)])"
  then have j: "j < length ps" by simp
  show "(embedded bm k ps)[k := write_pixel bm (3 * k) (ps ! k)] ! j = embedded bm (Suc k) ps ! j"
  proof (cases "j = k")
    case True
    then show ?thesis using assms by (simp add: embedded_def)
  next
    case False
    then have "(j < k) = (j < Suc k)" by arith
    then show ?thesis using j False by (simp add: embedded_def)
  qed
qed

lemma embedded_stable:
  assumes "length bm \<le> 3 * k" and "k \<le> k'"
  shows "embedded bm k' ps = embedded bm k ps"
proof -
  have "\<And>j. (j < k' \<and> 3 * j < length bm) = (j < k \<and> 3 * j < length bm)"
    using assms by arith
  then show ?thesis by (simp add: embedded_def)
qed

lemma loop_state_stable:
  assumes "length bm \<le> 3 * k" and "k \<le> k'"
  shows "loop_state bm h encoded out img k' = loop_state bm h encoded out img k"
proof -
  have a: "min (3 * k') (length bm) = min (3 * k) (length bm)"
    using assms by arith
  have b: "min k' ((length bm + 2) div 3) = min k ((length bm + 2) div 3)"
    using assms by arith
  show ?thesis
    by (simp only: loop_state_def a b embedded_stable [OF assms])
qed


lemma rgb_image_nth:
  assumes "rgb_image img" and "k < width img * height img"
  shows "\<exists>r g b. pixels img ! k = Multi [r, g, b]"
proof -
  have "is_rgb (pixels img ! k)"
    using assms by (simp add: rgb_image_def list_all_length)
  then obtain cs where cs: "pixels img ! k = Multi cs" "length cs = 3"
    by (auto simp: is_rgb_def split: pixel.splits)
  then obtain r g b where "cs = [r, g, b]"
    by (cases cs; cases "tl cs"; cases "tl (tl cs)") auto
  with cs show ?thesis by blast
qed

lemma position_in_range:
  assumes "col < w" and "row < (h::nat)"
  shows "row * w + col < w * h"
proof -
  have "row * w + col < row * w + w" using assms by simp
  also have "\<dots> = Suc row * w" by simp
  also have "\<dots> \<le> h * w" using assms by (intro mult_le_mono1) simp
  finally show ?thesis by (simp add: mult.commute)
qed

lemma encode_pixel_loop_state:
  assumes rgb: "rgb_image img"
    and refs: "image0 < length h" "encoded < length h" "image0 \<noteq> encoded"
    and img: "h ! image0 = img"
    and pos: "col < width img" "row < height img"
  shows "encode_pixel bm image0 encoded row col
           (loop_state bm h encoded out img (row * width img + col))
         = (False, loop_state bm h encoded out img (Suc (row * width img + col)))"
proof -
  let ?k = "row * width img + col"
  let ?s = "loop_state bm h encoded out img ?k"
  have k: "?k < width img * height img" using pos by (rule position_in_range)
  have len: "length (pixels img) = width img * height img"
    using rgb by (simp add: rgb_image_def)
  have ld: "loadable img"
    using rgb by (simp add: rgb_image_def)
  show ?thesis
  proof (cases "3 * ?k < length bm")
    case False
    then have fin: "length bm \<le> 3 * ?k" by simp
    have "index ?s = length bm" using fin by (simp add: loop_state_def)
    then have "encode_pixel bm image0 encoded row col ?s = (False, ?s)"
      by (simp add: encode_pixel_def)
    moreover have "loop_state bm h encoded out img (Suc ?k) = ?s"
      by (rule loop_state_stable [OF fin]) simp
    ultimately show ?thesis by simp
  next
    case True
    obtain r g b where px: "pixels img ! ?k = Multi [r, g, b]"
      using rgb_image_nth [OF rgb k] by blast
    have idx: "index ?s = 3 * ?k" using True by (simp add: loop_state_def)
    have hi: "heap ?s ! image0 = img"
      using refs img by (simp add: loop_state_def)
    have he: "heap ?s ! encoded = img\<lparr>pixels := embedded bm ?k (pixels img)\<rparr>"
      using refs by (simp add: loop_state_def)
    have get: "getpixel img (col, row) = Inr (Multi [r, g, b])"
      using pos k len px ld by (simp add: getpixel_def)
    let ?sc = "set_channels bm [0..<min 3 (length [r, g, b])] ([r, g, b], 3 * ?k)"
    have wp: "write_pixel bm (3 * ?k) (pixels img ! ?k) = Multi (fst ?sc)"
      by (simp only: write_pixel_def px pixel.case)
    have put: "putpixel (img\<lparr>pixels := embedded bm ?k (pixels img)\<rparr>) (col, row)
                 (write_pixel bm (3 * ?k) (pixels img ! ?k))
               = Inr (img\<lparr>pixels := embedded bm (Suc ?k) (pixels img)\<rparr>)"
      using pos k len ld embedded_step [OF True, of "pixels img"] by (simp add: putpixel_def)
    have i': "snd ?sc = min (3 * Suc ?k) (length bm)"
      using True by (simp only: set_channels_rgb snd_conv) arith
    have m': "modified_pixels ?s + 1 = min (Suc ?k) ((length bm + 2) div 3)"
      using True by (simp add: loop_state_def)
    obtain pixel idx' where sc: "?sc = (pixel, idx')"
      by (cases ?sc)
    have "encode_pixel bm image0 encoded row col ?s
            = (False, ?s\<lparr>heap := (heap ?s)[encoded := img\<lparr>pixels := embedded bm (Suc ?k) (pixels img)\<rparr>],
                         index := idx', modified_pixels := modified_pixels ?s + 1\<rparr>)"
      using True put wp sc
      by (simp only: encode_pixel_def idx hi he get sum.case pixel.case if_True
            prod.case fst_conv)
    also have "\<dots> = (False, loop_state bm h encoded out img (Suc ?k))"
      using i' m' sc by (simp add: loop_state_def)
    finally show ?thesis .
  qed
qed

lemma encode_cols_loop_state:
  assumes rgb: "rgb_image img"
    and refs: "image0 < length h" "encoded < length h" "image0 \<noteq> encoded"
    and img: "h ! image0 = img"
    and row: "row < height img"
  shows "c \<le> width img \<Longrightarrow>
         encode_cols bm image0 encoded row [c..<width img]
           (loop_state bm h encoded out img (row * width img + c))
         = loop_state bm h encoded out img (row * width img + width img)"
proof (induction "width img - c" arbitrary: c)
  case 0
  then show ?case by simp
next
  case (Suc n)
  then have c: "c < width img" by arith
  let ?k = "row * width img + c"
  have step: "encode_pixel bm image0 encoded row c (loop_state bm h encoded out img ?k)
                = (False, loop_state bm h encoded out img (Suc ?k))"
    by (rule encode_pixel_loop_state [OF rgb refs img c row])
  have nr: "raised (loop_state bm h encoded out img (Suc ?k)) = None"
    by (simp add: loop_state_def)
  show ?case
  proof (cases "length bm \<le> index (loop_state bm h encoded out img (Suc ?k))")
    case True
    then have fin: "length bm \<le> 3 * Suc ?k" by (simp add: loop_state_def)
    have "loop_state bm h encoded out img (row * width img + width img)
            = loop_state bm h encoded out img (Suc ?k)"
      using c by (intro loop_state_stable [OF fin]) simp
    then show ?thesis
      using True nr step c by (simp add: upt_conv_Cons)
  next
    case False
    have "encode_cols bm image0 encoded row [Suc c..<width img]
            (loop_state bm h encoded out img (row * width img + Suc c))
          = loop_state bm h encoded out img (row * width img + width img)"
      using Suc by (intro Suc.hyps(1)) simp_all
    then show ?thesis
      using False nr step c by (simp add: upt_conv_Cons)
  qed
qed

lemma encode_rows_loop_state:
  assumes rgb: "rgb_image img"
    and refs: "image0 < length h" "encoded < length h" "image0 \<noteq> encoded"
    and img: "h ! image0 = img"
  shows "r \<le> height img \<Longrightarrow>
         encode_rows bm image0 encoded (width img) [r..<height img]
           (loop_state bm h encoded out img (r * width img))
         = loop_state bm h encoded out img (height img * width img)"
proof (induction "height img - r" arbitrary: r)
  case 0
  then show ?case by simp
next
  case (Suc n)
  then have r: "r < height img" by arith
  have cols: "encode_cols bm image0 encoded r [0..<width img]
                (loop_state bm h encoded out img (r * width img))
              = loop_state bm h encoded out img (Suc r * width img)"
    using encode_cols_loop_state [OF rgb refs img r, of 0 bm out] by (simp add: add.commute)
  have nr: "raised (loop_state bm h encoded out img (Suc r * width img)) = None"
    by (simp add: loop_state_def)
  show ?case
  proof (cases "length bm \<le> index (loop_state bm h encoded out img (Suc r * width img))")
    case True
    then have fin: "length bm \<le> 3 * (Suc r * width img)" by (simp add: loop_state_def)
    have "Suc r * width img \<le> height img * width img"
      using r by (intro mult_le_mono1) simp
    then have "loop_state bm h encoded out img (height img * width img)
            = loop_state bm h encoded out img (Suc r * width img)"
      by (rule loop_state_stable [OF fin])
    then show ?thesis
      using True nr cols r by (simp add: upt_conv_Cons Let_def del: mult_Suc)
  next
    case False
    have "encode_rows bm image0 encoded (width img) [Suc r..<height img]
            (loop_state bm h encoded out img (Suc r * width img))
          = loop_state bm h encoded out img (height img * width img)"
      using Suc by (intro Suc.hyps(1)) simp_all
    then show ?thesis
      using False nr cols r by (simp add: upt_conv_Cons Let_def del: mult_Suc)
  qed
qed

lemma embedded_0: "embedded bm 0 ps = ps"
  by (simp add: embedded_def map_nth)

lemma loop_state_0:
  assumes "encoded < length h" and "h ! encoded = img"
  shows "loop_state bm h encoded out img 0
           = \<lparr>heap = h, index = 0, modified_pixels = 0, printed = out, raised = None\<rparr>"
  using assms by (simp add: loop_state_def embedded_0 list_update_same_conv)

lemma modified_count:
  assumes "length bm \<le> n * 3"
  shows "min n ((length bm + 2) div 3) = (length bm + 2) div 3"
  using assms by arith

lemma convert_loadable:
  "loadable img \<Longrightarrow> Image_convert_RGB lib img = Inr (as_rgb lib img)"
  by (simp add: Image_convert_RGB_def Image_load_def as_rgb_def)

lemma copy_loadable: "loadable img \<Longrightarrow> Image_copy img = Inr img"
  by (simp add: Image_copy_def Image_load_def)

lemma loadable_as_rgb: "loadable img \<Longrightarrow> loadable (as_rgb lib img)"
  by (simp add: as_rgb_def)

lemma as_rgb_rgb: "mode img = ''RGB'' \<Longrightarrow> as_rgb lib img = img"
  by (simp add: as_rgb_def)

lemma save_loadable:
  "loadable img \<Longrightarrow>
   Image_save lib fs path img =
     (if can_save lib path then Inr (fs(path := Some (ImageFile img (png_size lib img))))
      else Inl OSError)"
  by (simp add: Image_save_def Image_load_def)

text \<open>
  A call on a carrier that loads, with a bit stream that fits: the loop writes the whole
  stream, and the result is decided by the write of the output file.
\<close>

lemma encode_image_fits:
  assumes opened: "Image_open fs image_path = Inr opened"
    and loads: "loadable opened"
    and rgb: "rgb_image (as_rgb lib opened)"
    and fits: "length (to_binary (message @ delimiter))
                 \<le> width (as_rgb lib opened) * height (as_rgb lib opened) * 3"
  shows "encode_image lib fs image_path message output_path =
           \<lparr>returned = can_save lib output_path,
            files = (if can_save lib output_path
                     then fs(output_path := Some (ImageFile
                            (encoded_image (to_binary (message @ delimiter)) (as_rgb lib opened))
                            (png_size lib (encoded_image (to_binary (message @ delimiter))
                                            (as_rgb lib opened)))))
                     else fs),
            stdout = (if mode opened \<noteq> ''RGB'' then [Converting (mode opened)] else []) @
              [EncodingMessage (length message) (length (to_binary (message @ delimiter))),
               ImageCapacity
                 (width (as_rgb lib opened) * height (as_rgb lib opened) * 3)
                 (width (as_rgb lib opened) * height (as_rgb lib opened) * 3
                    div 8)] @
              (if can_save lib output_path
               then [EncodedSuccessfully ((length (to_binary (message @ delimiter)) + 2) div 3),
                     SavedAs ''PNG'',
                     if verify_encoding
                          (encoded_image (to_binary (message @ delimiter)) (as_rgb lib opened))
                          message
                     then VerificationSuccessful else VerificationWarning]
               else [ErrorEncoding OSError]),
            objects = (if mode opened \<noteq> ''RGB'' then [opened, as_rgb lib opened]
                       else [opened]) @
              [encoded_image (to_binary (message @ delimiter)) (as_rgb lib opened),
               encoded_image (to_binary (message @ delimiter)) (as_rgb lib opened)],
            carrier = (if mode opened \<noteq> ''RGB'' then 1 else 0),
            target = (if mode opened \<noteq> ''RGB'' then 2 else 1)\<rparr>"
proof -
  let ?img = "as_rgb lib opened"
  let ?bm = "to_binary (message @ delimiter)"
  let ?enc = "encoded_image ?bm ?img"
  let ?cap = "[EncodingMessage (length message) (length ?bm),
               ImageCapacity (width ?img * height ?img * 3) (width ?img * height ?img * 3 div 8)]"
  have ldi: "loadable ?img"
    using rgb by (simp add: rgb_image_def)
  have lde: "loadable ?enc"
    using ldi by (simp add: encoded_image_def)
  have modeenc: "mode ?enc = ''RGB''"
    using rgb by (simp add: encoded_image_def rgb_image_def)
  have conv: "Image_convert_RGB lib ?enc = Inr ?enc"
    using modeenc lde by (simp add: convert_loadable as_rgb_rgb)
  have save: "Image_save lib fs output_path ?enc =
                (if can_save lib output_path
                 then Inr (fs(output_path := Some (ImageFile ?enc (png_size lib ?enc))))
                 else Inl OSError)"
    using lde by (rule save_loadable)
  have cnt: "min (height ?img * width ?img) ((length ?bm + 2) div 3) = (length ?bm + 2) div 3"
    using fits by (intro modified_count) (simp add: mult.commute)
  have nfits: "\<not> width ?img * height ?img * 3 < length ?bm"
    using fits by simp
  show ?thesis
  proof (cases "mode opened = ''RGB''")
    case True
    then have io: "?img = opened" by (simp add: as_rgb_rgb)
    have run: "encode_rows ?bm 0 1 (width ?img) [0..<height ?img]
                 \<lparr>heap = [?img, ?img], index = 0, modified_pixels = 0, printed = ?cap,
                  raised = None\<rparr>
               = loop_state ?bm [?img, ?img] 1 ?cap ?img (height ?img * width ?img)"
      using encode_rows_loop_state [OF rgb, of 0 "[?img, ?img]" 1 0 ?bm ?cap]
        loop_state_0 [of 1 "[?img, ?img]" ?img ?bm ?cap]
      by simp
    have cp: "Image_copy opened = Inr opened"
      using loads by (rule copy_loadable)
    show ?thesis
      using True nfits run conv save cp cnt
      by (simp add: encode_image_def opened Let_def io loop_state_def encoded_image_def)
  next
    case False
    have run: "encode_rows ?bm 1 (Suc (Suc 0)) (width ?img) [0..<height ?img]
                 \<lparr>heap = [opened, ?img, ?img], index = 0, modified_pixels = 0,
                  printed = Converting (mode opened) # ?cap, raised = None\<rparr>
               = loop_state ?bm [opened, ?img, ?img] (Suc (Suc 0)) (Converting (mode opened) # ?cap) ?img
                   (height ?img * width ?img)"
      using encode_rows_loop_state [OF rgb, of 1 "[opened, ?img, ?img]" "Suc (Suc 0)" 0 ?bm
                                      "Converting (mode opened) # ?cap"]
        loop_state_0 [of "Suc (Suc 0)" "[opened, ?img, ?img]" ?img ?bm "Converting (mode opened) # ?cap"]
      by simp
    have cv: "Image_convert_RGB lib opened = Inr ?img"
      using loads by (rule convert_loadable)
    have cp: "Image_copy ?img = Inr ?img"
      using ldi by (rule copy_loadable)
    show ?thesis
      using False nfits run conv save cv cp cnt
      by (simp add: encode_image_def opened Let_def loop_state_def encoded_image_def)
  qed
qed

lemma encode_image_success:
  assumes opened: "Image_open fs image_path = Inr opened"
    and loads: "loadable opened"
    and rgb: "rgb_image (as_rgb lib opened)"
    and fits: "length (to_binary (message @ delimiter))
                 \<le> width (as_rgb lib opened) * height (as_rgb lib opened) * 3"
    and writes: "can_save lib output_path"
  shows "encode_image lib fs image_path message output_path =
           \<lparr>returned = True,
            files = fs(output_path := Some (ImageFile
                      (encoded_image (to_binary (message @ delimiter)) (as_rgb lib opened))
                      (png_size lib (encoded_image (to_binary (message @ delimiter))
                                      (as_rgb lib opened))))),
            stdout = (if mode opened \<noteq> ''RGB'' then [Converting (mode opened)] else []) @
              [EncodingMessage (length message) (length (to_binary (message @ delimiter))),
               ImageCapacity
                 (width (as_rgb lib opened) * height (as_rgb lib opened) * 3)
                 (width (as_rgb lib opened) * height (as_rgb lib opened) * 3
                    div 8),
               EncodedSuccessfully ((length (to_binary (message @ delimiter)) + 2) div 3),
               SavedAs ''PNG'',
               if verify_encoding
                    (encoded_image (to_binary (message @ delimiter)) (as_rgb lib opened))
                    message
               then VerificationSuccessful else VerificationWarning],
            objects = (if mode opened \<noteq> ''RGB'' then [opened, as_rgb lib opened]
                       else [opened]) @
              [encoded_image (to_binary (message @ delimiter)) (as_rgb lib opened),
               encoded_image (to_binary (message @ delimiter)) (as_rgb lib opened)],
            carrier = (if mode opened \<noteq> ''RGB'' then 1 else 0),
            target = (if mode opened \<noteq> ''RGB'' then 2 else 1)\<rparr>"
  using encode_image_fits [OF opened loads rgb fits, of output_path] writes by simp

section \<open>Length of the bit stream, and refusal\<close>

lemma length_bin_pos: "0 < length (bin n)"
  by (subst bin.simps) simp

lemma length_bin_le: "0 < k \<Longrightarrow> n < 2 ^ k \<Longrightarrow> length (bin n) \<le> k"
proof (induction k arbitrary: n)
  case 0
  then show ?case by simp
next
  case (Suc k)
  show ?case
  proof (cases "n < 2")
    case True
    then show ?thesis by (subst bin.simps) simp
  next
    case False
    then have k: "0 < k" using Suc.prems by (cases k) auto
    have "n div 2 < 2 ^ k" using Suc.prems by auto
    then have "length (bin (n div 2)) \<le> k" using Suc.IH k by blast
    then show ?thesis using False by (subst bin.simps) simp
  qed
qed

lemma length_format_08b_ge: "8 \<le> length (format_08b n)"
  by (simp add: format_08b_def)

lemma length_format_08b: "n < 256 \<Longrightarrow> length (format_08b n) = 8"
  using length_bin_le [of 8 n] by (simp add: format_08b_def)

lemma to_binary_append: "to_binary (a @ b) = to_binary a @ to_binary b"
  by (simp add: to_binary_def)

lemma to_binary_Cons: "to_binary (c # cs) = format_08b c @ to_binary cs"
  by (simp add: to_binary_def)

lemma length_to_binary_ge: "8 * length m \<le> length (to_binary m)"
proof (induction m)
  case Nil
  then show ?case by (simp add: to_binary_def)
next
  case (Cons c m)
  then show ?case using length_format_08b_ge [of c] by (simp add: to_binary_Cons)
qed

lemma length_to_binary: "\<forall>c\<in>set m. c < 256 \<Longrightarrow> length (to_binary m) = 8 * length m"
proof (induction m)
  case Nil
  then show ?case by (simp add: to_binary_def)
next
  case (Cons c m)
  then show ?case by (simp add: to_binary_Cons length_format_08b)
qed

lemma length_to_binary_delimiter: "length (to_binary delimiter) = 24"
  using length_to_binary [of delimiter] by (simp add: delimiter_def)

lemma length_stream:
  "\<forall>c\<in>set m. c < 256 \<Longrightarrow> length (to_binary (m @ delimiter)) = 8 * (length m + 3)"
  by (simp add: to_binary_append length_to_binary length_to_binary_delimiter)

lemma length_stream_ge: "8 * (length m + 3) \<le> length (to_binary (m @ delimiter))"
  using length_to_binary_ge [of m]
  by (simp add: to_binary_append length_to_binary_delimiter)

lemma encode_image_refused:
  assumes opened: "Image_open fs image_path = Inr opened"
    and loads: "loadable opened"
    and big: "width (as_rgb lib opened) * height (as_rgb lib opened) * 3
                < length (to_binary (message @ delimiter))"
  shows "encode_image lib fs image_path message output_path =
           \<lparr>returned = False, files = fs,
            stdout = (if mode opened \<noteq> ''RGB'' then [Converting (mode opened)] else []) @
              [MessageTooLarge
                 (width (as_rgb lib opened) * height (as_rgb lib opened) * 3
                    div 8)
                 (length message)],
            objects = (if mode opened \<noteq> ''RGB'' then [opened, as_rgb lib opened]
                       else [opened]) @ [as_rgb lib opened],
            carrier = (if mode opened \<noteq> ''RGB'' then 1 else 0),
            target = (if mode opened \<noteq> ''RGB'' then 2 else 1)\<rparr>"
proof (cases "mode opened = ''RGB''")
  case True
  then have io: "as_rgb lib opened = opened" by (simp add: as_rgb_rgb)
  show ?thesis
    using True big [unfolded io] copy_loadable [OF loads]
    by (simp add: encode_image_def opened Let_def io)
next
  case False
  have cp: "Image_copy (as_rgb lib opened) = Inr (as_rgb lib opened)"
    using loads by (intro copy_loadable loadable_as_rgb)
  show ?thesis
    using False big cp convert_loadable [OF loads, of lib]
    by (simp add: encode_image_def opened Let_def)
qed

section \<open>Capacity\<close>

lemma Image_open_getsize:
  "Image_open fs p = Inr img \<Longrightarrow> \<exists>n. os_path_getsize fs p = Inr n"
  by (auto simp: Image_open_def os_path_getsize_def split: option.splits disk_file.splits)

lemma analyze_usable_characters:
  assumes "Image_open fs image_path = Inr img"
  shows "map_option max_characters (analyze_image_capacity fs image_path)
           = Some (usable_characters img)"
proof -
  obtain n where n: "os_path_getsize fs image_path = Inr n"
    using Image_open_getsize [OF assms] by blast
  have "int (width img * height img * 3 div 8) = int (width img) * int (height img) * 3 div 8"
    by (simp add: zdiv_int)
  then show ?thesis
    using assms n
    by (simp add: analyze_image_capacity_def Let_def usable_characters_def max_capacity_def)
qed

lemma Image_open_one_image [simp]: "Image_open (one_image img) ''in.png'' = Inr img"
  by (simp add: Image_open_def one_image_def)

lemma rgb_image_blank [simp]: "rgb_image (blank w h)"
  by (simp add: rgb_image_def blank_def is_rgb_def list_all_length)

lemma convert_blank [simp]: "as_rgb lib (blank w h) = blank w h"
  by (simp add: as_rgb_def blank_def)

lemma size_blank [simp]:
  "width (blank w h) = w" "height (blank w h) = h" "mode (blank w h) = ''RGB''"
  "loadable (blank w h)"
  by (simp_all add: blank_def)

section \<open>The bits that the decoder extracts\<close>

lemma foldl_append_each:
  "foldl (\<lambda>bd i. bd @ [f i]) bd is = bd @ map f is"
  by (induction "is" arbitrary: bd) simp_all

lemma foldl_append_blocks:
  assumes "\<And>c bd. c \<in> set cs \<Longrightarrow> g bd c = bd @ f c"
  shows "foldl g bd cs = bd @ concat (map f cs)"
  using assms by (induction cs arbitrary: bd) simp_all

lemma map_nth_take: "map (\<lambda>i. f (xs ! i)) [0..<min n (length xs)] = map f (take n xs)"
  by (rule nth_equalityI) simp_all

lemma map_nth_all: "length xs = n \<Longrightarrow> map (\<lambda>k. f (xs ! k)) [0..<n] = map f xs"
  by (rule nth_equalityI) simp_all

lemma concat_rows:
  "concat (map (\<lambda>r. concat (map (\<lambda>c. F (r * w + c)) [0..<w])) [0..<h])
     = concat (map F [0..<h * w])"
proof (induction h)
  case 0
  then show ?case by simp
next
  case (Suc h)
  have "[0..<h * w + w] = [0..<h * w] @ [h * w..<h * w + w]"
    by (rule upt_add_eq_append) simp
  moreover have "[h * w..<h * w + w] = map (\<lambda>c. h * w + c) [0..<w]"
    by (rule nth_equalityI) simp_all
  ultimately have "[0..<Suc h * w] = [0..<h * w] @ map (\<lambda>c. h * w + c) [0..<w]"
    by (simp only: mult_Suc add.commute)
  then show ?case using Suc by (simp add: comp_def)
qed

lemma decode_pixel_bits:
  assumes "loadable img" and "length (pixels img) = width img * height img"
    and "col < width img" and "row < height img"
  shows "decode_pixel img row col bd
           = bd @ pixel_bits (pixels img ! (row * width img + col))"
proof -
  have "row * width img + col < width img * height img"
    using assms(3,4) by (rule position_in_range)
  then have "getpixel img (col, row) = Inr (pixels img ! (row * width img + col))"
    using assms by (simp add: getpixel_def)
  then show ?thesis
    by (simp add: decode_pixel_def pixel_bits_def foldl_append_each map_nth_take
          split: pixel.splits)
qed

lemma decode_bits_lsb_stream:
  assumes ld: "loadable img" and len: "length (pixels img) = width img * height img"
  shows "decode_bits img = lsb_stream (pixels img)"
proof -
  let ?F = "\<lambda>k. pixel_bits (pixels img ! k)"
  have row: "foldl (\<lambda>bd' col. decode_pixel img row col bd') bd [0..<width img]
               = bd @ concat (map (\<lambda>c. ?F (row * width img + c)) [0..<width img])"
    if "row < height img" for row bd
    by (rule foldl_append_blocks) (simp add: decode_pixel_bits [OF ld len _ that])
  have "decode_bits img
          = [] @ concat (map (\<lambda>r. concat (map (\<lambda>c. ?F (r * width img + c)) [0..<width img]))
                          [0..<height img])"
    unfolding decode_bits_def by (rule foldl_append_blocks) (simp add: row)
  also have "\<dots> = concat (map ?F [0..<height img * width img])"
    unfolding append_Nil by (rule concat_rows [of ?F])
  also have "\<dots> = concat (map pixel_bits (pixels img))"
  proof -
    have "length (pixels img) = height img * width img"
      using len by (simp only: mult.commute)
    then have "map ?F [0..<height img * width img] = map pixel_bits (pixels img)"
      by (rule map_nth_all)
    then show ?thesis by (rule arg_cong)
  qed
  finally show ?thesis by (simp only: lsb_stream_def)
qed

section \<open>The search for the delimiter\<close>

lemma decode_chars_scan:
  "decode_chars bits (map (\<lambda>k. 8 * k) [j..<n]) dm
     = scan_chars dm (map (\<lambda>k. int_base2 (take 8 (drop (8 * k) bits)))
                        [j..<min n (length bits div 8)])"
proof (induction "n - j" arbitrary: j dm)
  case 0
  then show ?case by simp
next
  case (Suc d)
  then have j: "j < n" by arith
  have IH: "decode_chars bits (map (\<lambda>k. 8 * k) [Suc j..<n]) dm'
              = scan_chars dm' (map (\<lambda>k. int_base2 (take 8 (drop (8 * k) bits)))
                                  [Suc j..<min n (length bits div 8)])" for dm'
    using Suc by (intro Suc.hyps(1)) arith
  show ?case
  proof (cases "8 * j + 8 \<le> length bits")
    case True
    then have "j < min n (length bits div 8)" using j by simp
    then have r: "[j..<min n (length bits div 8)] = j # [Suc j..<min n (length bits div 8)]"
      by (rule upt_conv_Cons)
    have l: "[j..<n] = j # [Suc j..<n]" using j by (rule upt_conv_Cons)
    show ?thesis
      unfolding l r using True by (simp add: IH Let_def)
  next
    case False
    then have "min n (length bits div 8) \<le> j" by simp
    then have r: "[j..<min n (length bits div 8)] = []" by simp
    have r': "[Suc j..<min n (length bits div 8)] = []"
      using \<open>min n (length bits div 8) \<le> j\<close> by simp
    have l: "[j..<n] = j # [Suc j..<n]" using j by (rule upt_conv_Cons)
    show ?thesis
      unfolding l r using False IH [of dm] by (simp add: r')
  qed
qed

lemma take_chars_of:
  "take n (chars_of bits)
     = map (\<lambda>k. int_base2 (take 8 (drop (8 * k) bits))) [0..<min n (length bits div 8)]"
proof -
  have "take n [0..<length bits div 8] = [0..<min n (length bits div 8)]"
    by (cases "n \<le> length bits div 8") (simp_all add: min_def)
  then show ?thesis by (simp add: chars_of_def take_map)
qed

lemma decode_chars_range8:
  "decode_chars bits (range8 (min (length bits) 50000)) [] = scan_chars [] (take 6250 (chars_of bits))"
proof -
  have "min ((min (length bits) 50000 + 7) div 8) (length bits div 8) = min 6250 (length bits div 8)"
    by arith
  then show ?thesis
    unfolding range8_def by (simp only: decode_chars_scan take_chars_of)
qed

section \<open>Characters of a bit stream\<close>

lemma int_base2_snoc: "int_base2 (bs @ [b]) = 2 * int_base2 bs + of_bool b"
  by (simp add: int_base2_def)

lemma int_base2_bin: "int_base2 (bin n) = n"
proof (induction n rule: bin.induct)
  case (1 n)
  show ?case
  proof (cases "n < 2")
    case True
    then have "n = 0 \<or> n = 1" by arith
    then show ?thesis by (subst bin.simps) (auto simp: int_base2_def)
  next
    case False
    have "int_base2 (bin n) = 2 * int_base2 (bin (n div 2)) + of_bool (odd n)"
      using False by (subst bin.simps) (simp add: int_base2_snoc)
    also have "\<dots> = 2 * (n div 2) + of_bool (odd n)"
      using 1 False by simp
    also have "\<dots> = n" by (cases "odd n") (auto elim: oddE)
    finally show ?thesis .
  qed
qed

lemma int_base2_zeros: "int_base2 (replicate k False @ bs) = int_base2 bs"
proof -
  have "foldl (\<lambda>a b. 2 * a + of_bool b) (0::nat) (replicate k False) = 0"
    by (induction k) simp_all
  then show ?thesis by (simp add: int_base2_def)
qed

lemma int_base2_format_08b: "int_base2 (format_08b n) = n"
  by (simp add: format_08b_def int_base2_zeros int_base2_bin)

lemma chars_of_block:
  assumes "length b = 8"
  shows "chars_of (b @ rest) = int_base2 b # chars_of rest"
proof -
  have d: "length (b @ rest) div 8 = Suc (length rest div 8)"
    using assms by simp
  have u: "[0..<Suc (length rest div 8)] = 0 # map Suc [0..<length rest div 8]"
    by (simp add: upt_conv_Cons map_Suc_upt del: upt_Suc)
  show ?thesis
    unfolding chars_of_def d u using assms by (simp add: comp_def)
qed

lemma chars_of_to_binary:
  "\<forall>c\<in>set s. c < 256 \<Longrightarrow> chars_of (to_binary s @ rest) = s @ chars_of rest"
proof (induction s)
  case Nil
  then show ?case by (simp add: to_binary_def)
next
  case (Cons c s)
  then have "length (format_08b c) = 8" by (simp add: length_format_08b)
  then have "chars_of (format_08b c @ to_binary s @ rest)
               = int_base2 (format_08b c) # chars_of (to_binary s @ rest)"
    by (rule chars_of_block)
  then show ?case using Cons by (simp add: to_binary_Cons int_base2_format_08b)
qed

section \<open>Where the search stops\<close>

lemma endswith_delimiter:
  "endswith s delimiter = (3 \<le> length s \<and> drop (length s - 3) s = delimiter)"
  by (simp add: endswith_def delimiter_def numeral_3_eq_3)

lemma scan_chars_step:
  "scan_chars dm (c # cs) =
     (if endswith (dm @ [c]) delimiter then Returned (take (length (dm @ [c]) - 3) (dm @ [c]))
      else scan_chars (dm @ [c]) cs)"
  by (simp add: endswith_delimiter)

lemma scan_chars_found:
  assumes "\<forall>k. 0 < k \<and> k \<le> length xs \<longrightarrow> \<not> endswith (dm @ take k xs) delimiter"
    and "endswith (dm @ xs @ [c]) delimiter"
  shows "scan_chars dm (xs @ c # rest)
           = Returned (take (length (dm @ xs @ [c]) - 3) (dm @ xs @ [c]))"
  using assms
proof (induction xs arbitrary: dm)
  case Nil
  then show ?case by (simp only: append_Nil scan_chars_step if_True)
next
  case (Cons x xs)
  have "\<not> endswith (dm @ take 1 (x # xs)) delimiter"
    using Cons.prems(1) by (intro Cons.prems(1) [rule_format]) simp
  then have n: "\<not> endswith (dm @ [x]) delimiter" by simp
  have a: "\<forall>k. 0 < k \<and> k \<le> length xs \<longrightarrow> \<not> endswith ((dm @ [x]) @ take k xs) delimiter"
  proof (intro allI impI)
    fix k assume "0 < k \<and> k \<le> length xs"
    then have "\<not> endswith (dm @ take (Suc k) (x # xs)) delimiter"
      by (intro Cons.prems(1) [rule_format]) simp
    then show "\<not> endswith ((dm @ [x]) @ take k xs) delimiter" by simp
  qed
  have b: "endswith ((dm @ [x]) @ xs @ [c]) delimiter"
    using Cons.prems(2) by simp
  have "scan_chars dm ((x # xs) @ c # rest) = scan_chars (dm @ [x]) (xs @ c # rest)"
    using n by (simp only: append_Cons scan_chars_step if_False)
  also have "\<dots> = Returned (take (length ((dm @ [x]) @ xs @ [c]) - 3) ((dm @ [x]) @ xs @ [c]))"
    using a b by (rule Cons.IH)
  finally show ?case by simp
qed

lemma scan_chars_not_found:
  assumes "\<forall>k. 0 < k \<and> k \<le> length xs \<longrightarrow> \<not> endswith (dm @ take k xs) delimiter"
  shows "scan_chars dm xs = Exhausted (dm @ xs)"
  using assms
proof (induction xs arbitrary: dm)
  case Nil
  then show ?case by simp
next
  case (Cons x xs)
  have "\<not> endswith (dm @ take 1 (x # xs)) delimiter"
    using Cons.prems(1) by (intro Cons.prems(1) [rule_format]) simp
  then have n: "\<not> endswith (dm @ [x]) delimiter" by simp
  have a: "\<forall>k. 0 < k \<and> k \<le> length xs \<longrightarrow> \<not> endswith ((dm @ [x]) @ take k xs) delimiter"
  proof (intro allI impI)
    fix k assume "0 < k \<and> k \<le> length xs"
    then have "\<not> endswith (dm @ take (Suc k) (x # xs)) delimiter"
      by (intro Cons.prems(1) [rule_format]) simp
    then show "\<not> endswith ((dm @ [x]) @ take k xs) delimiter" by simp
  qed
  have "scan_chars dm (x # xs) = scan_chars (dm @ [x]) xs"
    using n by (simp only: scan_chars_step if_False)
  also have "\<dots> = Exhausted ((dm @ [x]) @ xs)"
    using a by (rule Cons.IH)
  finally show ?case by simp
qed

lemma contains_middle: "contains (a @ sub @ b) sub"
proof (induction a)
  case Nil
  show ?case
  proof (cases "sub @ b")
    case Nil
    then show ?thesis by simp
  next
    case (Cons x xs)
    have "take (length sub) (sub @ b) = sub" by simp
    then have "take (length sub) (x # xs) = sub" unfolding Cons .
    then show ?thesis unfolding append_Nil Cons by simp
  qed
next
  case (Cons x a)
  then show ?case by simp
qed

lemma endswith_prefix_contains:
  assumes "endswith (take k xs) sub"
  shows "contains xs sub"
proof -
  let ?p = "take k xs"
  have "?p = take (length ?p - length sub) ?p @ sub"
    using assms by (metis endswith_def append_take_drop_id)
  then have "xs = take (length ?p - length sub) ?p @ sub @ drop k xs"
    by (metis append_take_drop_id append.assoc)
  then show ?thesis by (metis contains_middle)
qed

lemma contains_with_two_hashes:
  "contains (m @ [35, 35]) delimiter \<Longrightarrow> contains m delimiter \<or> endswith m [35]"
proof (induction m)
  case Nil
  then show ?case by (simp add: delimiter_def)
next
  case (Cons x m)
  from Cons.prems
  have "take (length delimiter) (x # m @ [35, 35]) = delimiter \<or> contains (m @ [35, 35]) delimiter"
    by (simp only: append_Cons contains.simps)
  then consider "take (length delimiter) (x # m @ [35, 35]) = delimiter"
    | "contains (m @ [35, 35]) delimiter"
    by blast
  then show ?case
  proof cases
    case 1
    show ?thesis
    proof (cases m)
      case Nil
      then show ?thesis using 1 by (simp add: delimiter_def endswith_def)
    next
      case (Cons y m')
      note m = this
      show ?thesis
      proof (cases m')
        case Nil
        then show ?thesis using 1 m by (simp add: delimiter_def endswith_def)
      next
        case (Cons z m'')
        then show ?thesis using 1 m by (simp add: delimiter_def)
      qed
    qed
  next
    case 2
    then have "contains m delimiter \<or> endswith m [35]" by (rule Cons.IH)
    then show ?thesis
    proof
      assume "contains m delimiter"
      then show ?thesis by simp
    next
      assume e: "endswith m [35]"
      then obtain n where n: "length m = Suc n"
        by (cases m) (auto simp: endswith_def)
      have "endswith (x # m) [35]"
        using e by (simp add: endswith_def n)
      then show ?thesis by simp
    qed
  qed
qed

lemma scan_chars_clean:
  assumes "\<not> contains m delimiter" and "\<not> endswith m [35]"
  shows "scan_chars [] (m @ delimiter @ rest) = Returned m"
proof -
  have nc: "\<not> contains (m @ [35, 35]) delimiter"
    using assms contains_with_two_hashes by blast
  have a: "\<forall>k. 0 < k \<and> k \<le> length (m @ [35, 35])
             \<longrightarrow> \<not> endswith ([] @ take k (m @ [35, 35])) delimiter"
  proof (intro allI impI notI)
    fix k
    assume "endswith ([] @ take k (m @ [35, 35])) delimiter"
    then have "endswith (take k (m @ [35, 35])) delimiter" by (simp only: append_Nil)
    then have "contains (m @ [35, 35]) delimiter" by (rule endswith_prefix_contains)
    with nc show False ..
  qed
  have b: "endswith ([] @ (m @ [35, 35]) @ [35]) delimiter"
    by (simp add: endswith_def delimiter_def)
  have "scan_chars [] ((m @ [35, 35]) @ 35 # rest)
          = Returned (take (length ([] @ (m @ [35, 35]) @ [35]) - 3) ([] @ (m @ [35, 35]) @ [35]))"
    using a b by (rule scan_chars_found)
  then show ?thesis by (simp add: delimiter_def)
qed

section \<open>The bits of the encoded image\<close>

lemma lsb_stream_Cons: "lsb_stream (p # ps) = pixel_bits p @ lsb_stream ps"
  by (simp add: lsb_stream_def)

lemma is_rgb_cases:
  assumes "is_rgb p"
  obtains r g b where "p = Multi [r, g, b]"
proof -
  obtain cs where cs: "p = Multi cs" "length cs = 3"
    using assms by (auto simp: is_rgb_def split: pixel.splits)
  then obtain r g b where "cs = [r, g, b]"
    by (cases cs; cases "tl cs"; cases "tl (tl cs)") auto
  with cs that show ?thesis by blast
qed

lemma length_pixel_bits: "is_rgb p \<Longrightarrow> length (pixel_bits p) = 3"
  by (erule is_rgb_cases) (simp add: pixel_bits_def)

lemma length_lsb_stream: "list_all is_rgb ps \<Longrightarrow> length (lsb_stream ps) = 3 * length ps"
  by (induction ps) (simp_all add: lsb_stream_Cons length_pixel_bits, simp add: lsb_stream_def)

lemma nth_lsb_stream:
  "list_all is_rgb ps \<Longrightarrow> k < 3 * length ps \<Longrightarrow>
   lsb_stream ps ! k = pixel_bits (ps ! (k div 3)) ! (k mod 3)"
proof (induction ps arbitrary: k)
  case Nil
  then show ?case by simp
next
  case (Cons p ps)
  have l: "length (pixel_bits p) = 3" using Cons.prems(1) by (simp add: length_pixel_bits)
  show ?case
  proof (cases "k < 3")
    case True
    then show ?thesis by (simp add: lsb_stream_Cons nth_append l)
  next
    case False
    then have k: "k - 3 < 3 * length ps" using Cons.prems(2) by simp
    have d: "k div 3 = Suc ((k - 3) div 3)" and m: "k mod 3 = (k - 3) mod 3"
      using False by (simp_all add: le_div_geq le_mod_geq)
    have "lsb_stream (p # ps) ! k = lsb_stream ps ! (k - 3)"
      using False by (simp add: lsb_stream_Cons nth_append l)
    also have "\<dots> = pixel_bits (ps ! ((k - 3) div 3)) ! ((k - 3) mod 3)"
      using Cons.prems(1) k by (intro Cons.IH) simp_all
    finally show ?thesis by (simp add: d m)
  qed
qed

lemma write_pixel_rgb:
  "write_pixel bm idx (Multi [r, g, b]) =
     Multi [if idx < length bm then put_lsb r (bm ! idx) else r,
            if Suc idx < length bm then put_lsb g (bm ! Suc idx) else g,
            if Suc (Suc idx) < length bm then put_lsb b (bm ! Suc (Suc idx)) else b]"
  by (simp only: write_pixel_def pixel.case set_channels_rgb fst_conv)

lemma is_rgb_write_pixel: "is_rgb p \<Longrightarrow> is_rgb (write_pixel bm idx p)"
  by (erule is_rgb_cases) (simp add: write_pixel_rgb is_rgb_def)

lemma pixel_bits_write_pixel:
  assumes "is_rgb p" and "i < 3"
  shows "pixel_bits (write_pixel bm idx p) ! i
           = (if idx + i < length bm then bm ! (idx + i) else pixel_bits p ! i)"
proof -
  obtain r g b where p: "p = Multi [r, g, b]"
    using assms(1) by (rule is_rgb_cases)
  from assms(2) consider "i = 0" | "i = 1" | "i = 2" by arith
  then show ?thesis
    by cases (simp_all add: p write_pixel_rgb pixel_bits_def)
qed

lemma nth_embedded:
  "j < length ps \<Longrightarrow>
   embedded bm k ps ! j
     = (if j < k \<and> 3 * j < length bm then write_pixel bm (3 * j) (ps ! j) else ps ! j)"
  by (simp add: embedded_def)

lemma is_rgb_embedded: "list_all is_rgb ps \<Longrightarrow> list_all is_rgb (embedded bm k ps)"
  by (simp add: list_all_length nth_embedded is_rgb_write_pixel)

lemma lsb_stream_embedded:
  assumes rgb: "list_all is_rgb ps" and fits: "length bm \<le> 3 * length ps"
  shows "lsb_stream (embedded bm (length ps) ps) = bm @ drop (length bm) (lsb_stream ps)"
proof (rule nth_equalityI)
  show "length (lsb_stream (embedded bm (length ps) ps))
          = length (bm @ drop (length bm) (lsb_stream ps))"
    using fits by (simp add: length_lsb_stream rgb is_rgb_embedded)
next
  fix k
  assume "k < length (lsb_stream (embedded bm (length ps) ps))"
  then have k: "k < 3 * length ps"
    by (simp add: length_lsb_stream rgb is_rgb_embedded)
  let ?j = "k div 3" and ?i = "k mod 3"
  have j: "?j < length ps" using k by simp
  have i: "?i < 3" by simp
  have kk: "3 * ?j + ?i = k" by simp
  have pj: "is_rgb (ps ! ?j)" using rgb j by (simp add: list_all_length)
  have old: "lsb_stream ps ! k = pixel_bits (ps ! ?j) ! ?i"
    using rgb k by (rule nth_lsb_stream)
  have "lsb_stream (embedded bm (length ps) ps) ! k
          = pixel_bits (embedded bm (length ps) ps ! ?j) ! ?i"
    using is_rgb_embedded [OF rgb] k by (intro nth_lsb_stream) simp_all
  also have "\<dots> = (if k < length bm then bm ! k else lsb_stream ps ! k)"
  proof (cases "3 * ?j < length bm")
    case True
    then have "embedded bm (length ps) ps ! ?j = write_pixel bm (3 * ?j) (ps ! ?j)"
      using j by (simp add: nth_embedded)
    then show ?thesis
      using pixel_bits_write_pixel [OF pj i, of bm "3 * ?j"] old by (simp only: kk)
  next
    case False
    then have "\<not> k < length bm" using kk by arith
    moreover have "embedded bm (length ps) ps ! ?j = ps ! ?j"
      using j False by (simp add: nth_embedded)
    ultimately show ?thesis using old by simp
  qed
  also have "\<dots> = (bm @ drop (length bm) (lsb_stream ps)) ! k"
    using k fits by (simp add: nth_append length_lsb_stream rgb)
  finally show "lsb_stream (embedded bm (length ps) ps) ! k
                  = (bm @ drop (length bm) (lsb_stream ps)) ! k" .
qed

lemma drop_embedded:
  assumes "length bm \<le> 3 * k"
  shows "drop k (embedded bm n ps) = drop k ps"
proof (rule nth_equalityI)
  show "length (drop k (embedded bm n ps)) = length (drop k ps)" by simp
next
  fix j
  assume "j < length (drop k (embedded bm n ps))"
  then have j: "k + j < length ps" by simp
  have "\<not> 3 * (k + j) < length bm" using assms by arith
  then show "drop k (embedded bm n ps) ! j = drop k ps ! j"
    using j by (simp add: nth_embedded)
qed

section \<open>Decoding the file that the encoder wrote\<close>

lemma decode_bits_encoded_image:
  assumes rgb: "rgb_image img" and fits: "length bm \<le> width img * height img * 3"
  shows "decode_bits (encoded_image bm img) = bm @ drop (length bm) (lsb_stream (pixels img))"
proof -
  have len: "length (pixels img) = width img * height img"
    and all: "list_all is_rgb (pixels img)" and ld: "loadable img"
    using rgb by (simp_all add: rgb_image_def)
  have n: "height img * width img = length (pixels img)"
    using len by (simp add: mult.commute)
  have "decode_bits (encoded_image bm img) = lsb_stream (pixels (encoded_image bm img))"
    using ld len by (intro decode_bits_lsb_stream) (simp_all add: encoded_image_def)
  also have "\<dots> = lsb_stream (embedded bm (length (pixels img)) (pixels img))"
    by (simp add: encoded_image_def n)
  also have "\<dots> = bm @ drop (length bm) (lsb_stream (pixels img))"
    using all fits len by (intro lsb_stream_embedded) simp_all
  finally show ?thesis .
qed

lemma decode_encoded_file:
  assumes opened: "Image_open fs image_path = Inr opened"
    and loads: "loadable opened"
    and rgb: "rgb_image (as_rgb lib opened)"
    and fits: "length (to_binary (message @ delimiter))
                 \<le> width (as_rgb lib opened) * height (as_rgb lib opened) * 3"
    and writes: "can_save lib output_path"
  shows "decode_image (files (encode_image lib fs image_path message output_path)) output_path
           = decode_message (to_binary (message @ delimiter)
               @ drop (length (to_binary (message @ delimiter)))
                   (lsb_stream (pixels (as_rgb lib opened))))"
  using encode_image_success [OF opened loads rgb fits writes]
    decode_bits_encoded_image [OF rgb fits]
  by (simp add: decode_image_def Image_open_def)

lemma take_past_prefix: "length xs + n = k \<Longrightarrow> take k (xs @ ys) = xs @ take n ys"
  by auto

lemma decode_message_found:
  assumes bytes: "\<forall>c\<in>set m. c < 256"
    and clean: "\<not> contains m delimiter" "\<not> endswith m [35]"
    and short: "length m + 3 \<le> 6250"
  shows "decode_message (to_binary (m @ delimiter) @ rest) = Some m"
proof -
  let ?bits = "to_binary (m @ delimiter) @ rest"
  have b: "\<forall>c\<in>set (m @ delimiter). c < 256"
    using bytes by (simp add: delimiter_def)
  have l: "8 \<le> length ?bits"
    using length_stream [OF bytes] by simp
  have "take 6250 (chars_of ?bits) = take 6250 ((m @ delimiter) @ chars_of rest)"
    by (simp only: chars_of_to_binary [OF b])
  also have "\<dots> = (m @ delimiter) @ take (6250 - (length m + 3)) (chars_of rest)"
    using short by (intro take_past_prefix) (simp add: delimiter_def)
  finally have t: "take 6250 (chars_of ?bits)
                     = m @ delimiter @ take (6250 - (length m + 3)) (chars_of rest)"
    by (simp only: append_assoc)
  have "scan_chars [] (m @ delimiter @ take (6250 - (length m + 3)) (chars_of rest)) = Returned m"
    using clean by (rule scan_chars_clean)
  then have "scan_chars [] (take 6250 (chars_of ?bits)) = Returned m"
    by (simp only: t)
  then have "decode_chars ?bits (range8 (min (length ?bits) 50000)) [] = Returned m"
    by (simp only: decode_chars_range8)
  moreover have "\<not> length ?bits < 8" using l by simp
  ultimately show ?thesis
    by (simp only: decode_message_def if_False scan.case)
qed

lemma decode_message_prefix: "decode_message bits = decode_message (take 50000 bits)"
proof (cases "length bits \<le> 50000")
  case True
  then show ?thesis by simp
next
  case False
  have "take 6250 (chars_of (take 50000 bits)) = take 6250 (chars_of bits)"
  proof -
    have "take 8 (drop (8 * k) (take 50000 bits)) = take 8 (drop (8 * k) bits)" if "k < 6250" for k
    proof -
      have "drop (8 * k) (take 50000 bits) = take (50000 - 8 * k) (drop (8 * k) bits)"
        by (simp add: drop_take)
      moreover have "8 \<le> 50000 - 8 * k" using that by arith
      ultimately show ?thesis by (simp add: min_def)
    qed
    then show ?thesis
      using False by (simp add: take_chars_of min_def)
  qed
  then have "scan_chars [] (take 6250 (chars_of bits))
               = scan_chars [] (take 6250 (chars_of (take 50000 bits)))"
    by (simp only:)
  then have "decode_chars bits (range8 (min (length bits) 50000)) []
          = decode_chars (take 50000 bits) (range8 (min (length (take 50000 bits)) 50000)) []"
    by (simp only: decode_chars_range8)
  moreover have "(length bits < 8) = (length (take 50000 bits) < 8)"
    using False by simp
  ultimately show ?thesis
    by (simp only: decode_message_def)
qed

section \<open>Unreadable images\<close>

lemma foldl_unchanged: "(\<And>a x. f a x = a) \<Longrightarrow> foldl f a xs = a"
  by (induction xs) simp_all

lemma decode_bits_not_loadable: "\<not> loadable img \<Longrightarrow> decode_bits img = []"
  by (simp add: decode_bits_def decode_pixel_def getpixel_def foldl_unchanged)

lemma encode_image_not_loadable:
  assumes "Image_open fs image_path = Inr opened" and "\<not> loadable opened"
  shows "encode_image lib fs image_path message output_path =
           \<lparr>returned = False, files = fs,
            stdout = (if mode opened \<noteq> ''RGB'' then [Converting (mode opened)] else []) @
                       [ErrorEncoding OSError],
            objects = [opened], carrier = 0, target = 0\<rparr>"
  using assms
  by (simp add: encode_image_def Let_def Image_convert_RGB_def Image_copy_def Image_load_def)

text \<open>
  Claim C9, as the code has it. An input is unreadable when \<open>Image.open\<close> raises on it (a
  missing file, a file that is not an image) or when \<open>Image.open\<close> accepts it and its pixel
  data cannot be decoded (a truncated image). On every unreadable input \<open>encode_image\<close>
  returns \<open>False\<close> and writes nothing, and \<open>decode_image\<close> returns \<open>None\<close>.
  \<open>analyze_image_capacity\<close> returns \<open>None\<close> exactly when \<open>Image.open\<close> raises: it reads
  only the size, which the header holds, so for an image whose data cannot be decoded it
  returns a capacity report (the counterexample below).
\<close>

theorem unreadable_image_fails_closed:
  assumes "unreadable fs image_path"
  shows "\<not> returned (encode_image lib fs image_path message output_path)
       \<and> files (encode_image lib fs image_path message output_path) = fs
       \<and> decode_image fs image_path = None
       \<and> (analyze_image_capacity fs image_path = None) = isl (Image_open fs image_path)"
proof (cases "Image_open fs image_path")
  case (Inl e)
  then show ?thesis
    by (simp add: encode_image_def decode_image_def analyze_image_capacity_def)
next
  case (Inr opened)
  then have nl: "\<not> loadable opened"
    using assms by (simp add: unreadable_def)
  obtain n where n: "os_path_getsize fs image_path = Inr n"
    using Image_open_getsize [OF Inr] by blast
  have "decode_message (decode_bits opened) = None"
    by (simp add: decode_bits_not_loadable [OF nl] decode_message_def)
  then show ?thesis
    using Inr n encode_image_not_loadable [OF Inr nl, of lib message output_path]
    by (simp add: decode_image_def analyze_image_capacity_def Let_def)
qed

theorem unreadable_image_fails_closed_witness:
  "unreadable (no_files(''notes.txt'' := Some (OtherFile 12))) ''notes.txt''
   \<and> \<not> returned (encode_image demo_pil (no_files(''notes.txt'' := Some (OtherFile 12)))
                   ''notes.txt'' [104, 105] ''out.png'')
   \<and> decode_image (no_files(''notes.txt'' := Some (OtherFile 12))) ''notes.txt'' = None
   \<and> analyze_image_capacity (no_files(''notes.txt'' := Some (OtherFile 12))) ''notes.txt''
       = None
   \<and> unreadable (one_image (truncated 10 10)) ''in.png''
   \<and> \<not> returned (encode_image demo_pil (one_image (truncated 10 10)) ''in.png'' [104, 105]
                   ''out.png'')
   \<and> files (encode_image demo_pil (one_image (truncated 10 10)) ''in.png'' [104, 105]
              ''out.png'') = one_image (truncated 10 10)
   \<and> decode_image (one_image (truncated 10 10)) ''in.png'' = None"
proof -
  have h: "Image_open (no_files(''notes.txt'' := Some (OtherFile 12))) ''notes.txt''
             = Inl UnidentifiedImageError"
    by (simp add: Image_open_def)
  have u1: "unreadable (no_files(''notes.txt'' := Some (OtherFile 12))) ''notes.txt''"
    by (simp add: unreadable_def h)
  have u2: "unreadable (one_image (truncated 10 10)) ''in.png''"
    by (simp add: unreadable_def truncated_def)
  show ?thesis
    using u1 u2 h
      unreadable_image_fails_closed [OF u1, of demo_pil "[104, 105]" "''out.png''"]
      unreadable_image_fails_closed [OF u2, of demo_pil "[104, 105]" "''out.png''"]
    by simp
qed

theorem unreadable_image_fails_closed_counterexample:
  "Image_open (one_image (truncated 10 10)) ''in.png'' = Inr (truncated 10 10)
   \<and> Image_load (truncated 10 10) = Inl OSError
   \<and> getpixel (truncated 10 10) (0, 0) = Inl OSError
   \<and> analyze_image_capacity (one_image (truncated 10 10)) ''in.png''
       = Some \<lparr>image_dimensions = (10, 10), max_bits = 300, max_characters = 34,
               file_size_kb = 100 / 1024\<rparr>"
  by (simp add: analyze_image_capacity_def os_path_getsize_def one_image_def Image_open_def
        Image_load_def getpixel_def truncated_def)

section \<open>Capacity of small images\<close>

text \<open>
  Claim C10. For a readable image with fewer than 8 pixels, \<open>analyze_image_capacity\<close>
  returns a result (not \<open>None\<close>) whose \<open>max_characters\<close> is negative: it is
  \<open>(width * height * 3) // 8 - 3\<close>, with nothing that clamps it.
\<close>

theorem tiny_image_negative_capacity:
  assumes "Image_open fs image_path = Inr img" and "width img * height img < 8"
  shows "\<exists>info. analyze_image_capacity fs image_path = Some info \<and> max_characters info < 0
           \<and> max_characters info = (int (width img) * int (height img) * 3) div 8 - 3"
proof -
  obtain n where n: "os_path_getsize fs image_path = Inr n"
    using Image_open_getsize [OF assms(1)] by blast
  have "int (width img) * int (height img) < 8"
    using assms(2) by (metis of_nat_less_iff of_nat_mult of_nat_numeral)
  then have "(int (width img) * int (height img) * 3) div 8 - 3 < 0"
    by linarith
  then show ?thesis
    using assms(1) n by (simp add: analyze_image_capacity_def Let_def)
qed

theorem tiny_image_negative_capacity_witness:
  "\<exists>info. analyze_image_capacity (no_files(''dot.png'' := Some (ImageFile (blank 1 1) 70)))
             ''dot.png'' = Some info \<and> max_characters info = - 3"
proof -
  let ?fs = "no_files(''dot.png'' := Some (ImageFile (blank 1 1) 70))"
  have h: "Image_open ?fs ''dot.png'' = Inr (blank 1 1)" by (simp add: Image_open_def)
  have s: "width (blank 1 1) * height (blank 1 1) < 8" by (simp add: blank_def)
  from tiny_image_negative_capacity [OF h s] show ?thesis by (auto simp: blank_def)
qed

section \<open>The round trip\<close>

lemma fits_of_usable_characters:
  assumes "\<forall>c\<in>set m. c < 256" and "int (length m) \<le> usable_characters img"
  shows "length (to_binary (m @ delimiter)) \<le> width img * height img * 3"
proof -
  have "length m + 3 \<le> max_capacity img div 8"
    using assms(2) by (simp add: usable_characters_def)
  then have "8 * (length m + 3) \<le> max_capacity img" by arith
  then show ?thesis
    using length_stream [OF assms(1)] by (simp add: max_capacity_def)
qed

text \<open>
  Claim C1, as the code has it. The carrier is one that \<open>Image.open\<close> accepts and whose
  pixel data loads, the image the encoder works on (the carrier, converted if its mode is
  not RGB) has at least \<open>len(m) + 3\<close> usable characters, the output file can be written and
  every character of \<open>m\<close> has a code point below 256. Then \<open>encode_image\<close> returns \<open>True\<close>,
  and \<open>decode_image\<close> on the file it wrote returns exactly \<open>m\<close>, provided that \<open>m\<close> does
  not contain \<open>"###"\<close>, that \<open>m\<close> does not end with \<open>"#"\<close>, and that \<open>m\<close> with its delimiter
  has at most 6250 characters (the 50,000 bits that \<open>decode_image\<close> searches). A message
  that contains \<open>"###"\<close> or ends with \<open>"#"\<close> comes back cut at the first \<open>"###"\<close> of the
  message and its delimiter: the counterexample below is the message \<open>"#"\<close> in a 10 by 10
  image, which decodes to the empty string. Beyond 6250 characters the delimiter is not
  found.
\<close>

theorem round_trip:
  assumes opened: "Image_open fs image_path = Inr opened"
    and loads: "loadable opened"
    and rgb: "rgb_image (as_rgb lib opened)"
    and writes: "can_save lib output_path"
    and capacity: "int (length message) \<le> usable_characters (as_rgb lib opened)"
    and bytes: "\<forall>c\<in>set message. c < 256"
    and clean: "\<not> contains message delimiter" "\<not> endswith message [35]"
    and short: "length message + 3 \<le> 6250"
  shows "returned (encode_image lib fs image_path message output_path)
       \<and> decode_image (files (encode_image lib fs image_path message output_path)) output_path
           = Some message"
proof -
  have fits: "length (to_binary (message @ delimiter))
                \<le> width (as_rgb lib opened) * height (as_rgb lib opened) * 3"
    using bytes capacity by (rule fits_of_usable_characters)
  have "returned (encode_image lib fs image_path message output_path)"
    using encode_image_success [OF opened loads rgb fits writes] by simp
  moreover have "decode_image (files (encode_image lib fs image_path message output_path))
                   output_path = Some message"
    by (simp only: decode_encoded_file [OF opened loads rgb fits writes]
          decode_message_found [OF bytes clean short])
  ultimately show ?thesis by simp
qed

theorem round_trip_witness:
  "returned (encode_image demo_pil (one_image (blank 4 4)) ''in.png'' [72, 105, 33] ''out.png'')
   \<and> decode_image
        (files (encode_image demo_pil (one_image (blank 4 4)) ''in.png'' [72, 105, 33] ''out.png''))
        ''out.png'' = Some [72, 105, 33]"
proof -
  have o: "Image_open (one_image (blank 4 4)) ''in.png'' = Inr (blank 4 4)" by simp
  have w: "can_save demo_pil ''out.png''" by (simp add: demo_pil_def)
  have u: "int (length [72, 105, 33 :: nat]) \<le> usable_characters (as_rgb demo_pil (blank 4 4))"
    by (simp add: usable_characters_def max_capacity_def)
  have c: "\<not> contains [72, 105, 33 :: nat] delimiter" "\<not> endswith [72, 105, 33 :: nat] [35]"
    by (simp_all add: delimiter_def endswith_def)
  from round_trip [OF o _ _ w u _ c] show ?thesis by simp
qed

theorem round_trip_counterexample:
  "int (length [35 :: nat]) + 3 \<le> usable_characters (blank 10 10)
   \<and> (35 :: nat) < 256
   \<and> returned (encode_image demo_pil (one_image (blank 10 10)) ''in.png'' [35] ''out.png'')
   \<and> decode_image
        (files (encode_image demo_pil (one_image (blank 10 10)) ''in.png'' [35] ''out.png''))
        ''out.png'' = Some []"
proof -
  have o: "Image_open (one_image (blank 10 10)) ''in.png'' = Inr (blank 10 10)" by simp
  have w: "can_save demo_pil ''out.png''" by (simp add: demo_pil_def)
  have u3: "int (length [35 :: nat]) + 3 \<le> usable_characters (blank 10 10)"
    by (simp add: usable_characters_def max_capacity_def)
  then have u: "int (length [35 :: nat]) \<le> usable_characters (blank 10 10)"
    by simp
  have b: "\<forall>c\<in>set [35 :: nat]. c < 256" by simp
  have f: "length (to_binary ([35] @ delimiter))
             \<le> width (as_rgb demo_pil (blank 10 10)) * height (as_rgb demo_pil (blank 10 10)) * 3"
    using fits_of_usable_characters [OF b, of "blank 10 10"] u by simp
  let ?bits = "to_binary ([35] @ delimiter)
                 @ drop (length (to_binary ([35] @ delimiter)))
                     (lsb_stream (pixels (as_rgb demo_pil (blank 10 10))))"
  have "chars_of ?bits = ([35] @ delimiter)
          @ chars_of (drop (length (to_binary ([35] @ delimiter)))
                        (lsb_stream (pixels (as_rgb demo_pil (blank 10 10)))))"
    by (rule chars_of_to_binary) (simp add: delimiter_def)
  then have "scan_chars [] (take 6250 (chars_of ?bits)) = Returned []"
    by (simp add: delimiter_def)
  then have "decode_chars ?bits (range8 (min (length ?bits) 50000)) [] = Returned []"
    by (simp only: decode_chars_range8)
  moreover have "\<not> length ?bits < 8"
    using length_stream [OF b] by simp
  ultimately have "decode_message ?bits = Some []"
    by (simp only: decode_message_def if_False scan.case)
  then show ?thesis
    using u3 encode_image_success [OF o _ _ f w] decode_encoded_file [OF o _ _ f w]
    by simp
qed

section \<open>The capacity boundary\<close>

text \<open>
  Claim C2, as the code has it, for a carrier whose pixel data can be decoded. Let
  \<open>C = (width * height * 3) // 8 - 3\<close> for the image the encoder works on. A message of
  length \<open>C\<close> whose characters all have code points below 256 is encoded, and the call
  succeeds when the output file can be written: \<open>encode_image\<close> then returns \<open>True\<close> and
  the output file holds the encoded image (when \<open>save\<close> raises, it returns \<open>False\<close>).
  A message of length \<open>C + 1\<close> has a bit stream longer than \<open>width * height * 3\<close>, and
  every message with such a bit stream is refused: \<open>encode_image\<close> returns \<open>False\<close>, the
  files are as before and no pixel of the copy has been written. The restriction to code
  points below 256 is needed: \<open>format(ord(c), "08b")\<close> gives more than 8 digits for a
  larger code point, so that a message of length \<open>C\<close> can exceed the capacity (the
  counterexample below).
\<close>

theorem capacity_boundary:
  assumes opened: "Image_open fs image_path = Inr opened" and loads: "loadable opened"
  shows "let img = as_rgb lib opened;
             bits = to_binary (message @ delimiter);
             r = encode_image lib fs image_path message output_path
         in (rgb_image img \<and> (\<forall>c\<in>set message. c < 256)
               \<and> int (length message) = usable_characters img
             \<longrightarrow> returned r = can_save lib output_path
                 \<and> (can_save lib output_path \<longrightarrow>
                      files r = fs(output_path := Some (ImageFile (encoded_image bits img)
                                                         (png_size lib (encoded_image bits img))))))
          \<and> (int (length message) = usable_characters img + 1
             \<longrightarrow> max_capacity img < length bits)
          \<and> (max_capacity img < length bits
             \<longrightarrow> \<not> returned r \<and> files r = fs \<and> objects r ! target r = img)"
proof -
  let ?img = "as_rgb lib opened"
  let ?bits = "to_binary (message @ delimiter)"
  let ?r = "encode_image lib fs image_path message output_path"
  have a: "returned ?r = can_save lib output_path
           \<and> (can_save lib output_path \<longrightarrow>
                files ?r = fs(output_path := Some (ImageFile (encoded_image ?bits ?img)
                                                    (png_size lib (encoded_image ?bits ?img)))))"
    if rgb: "rgb_image ?img" and bytes: "\<forall>c\<in>set message. c < 256"
      and len: "int (length message) = usable_characters ?img"
  proof -
    have "length message + 3 = max_capacity ?img div 8"
      using len by (simp add: usable_characters_def)
    then have "length ?bits = 8 * (max_capacity ?img div 8)"
      using length_stream [OF bytes] by simp
    then have "length ?bits \<le> width ?img * height ?img * 3"
      by (simp add: max_capacity_def)
    from encode_image_fits [OF opened loads rgb this, of output_path] show ?thesis by simp
  qed
  have b: "max_capacity ?img < length ?bits"
    if len: "int (length message) = usable_characters ?img + 1"
  proof -
    have "length message + 3 = max_capacity ?img div 8 + 1"
      using len by (simp add: usable_characters_def)
    then have "8 * (max_capacity ?img div 8 + 1) \<le> length ?bits"
      using length_stream_ge [of message] by simp
    then show ?thesis by arith
  qed
  have c: "\<not> returned ?r \<and> files ?r = fs \<and> objects ?r ! target ?r = ?img"
    if big: "max_capacity ?img < length ?bits"
  proof -
    have "width ?img * height ?img * 3 < length ?bits"
      using big by (simp add: max_capacity_def)
    from encode_image_refused [OF opened loads this] show ?thesis by simp
  qed
  show ?thesis unfolding Let_def using a b c by blast
qed

theorem capacity_boundary_witness:
  "returned (encode_image demo_pil (one_image (blank 4 4)) ''in.png'' [97, 98, 99] ''out.png'')
   \<and> \<not> returned (encode_image read_only_pil (one_image (blank 4 4)) ''in.png'' [97, 98, 99]
                   ''out.png'')
   \<and> \<not> returned (encode_image demo_pil (one_image (blank 4 4)) ''in.png'' [97, 98, 99, 100]
                   ''out.png'')
   \<and> files (encode_image demo_pil (one_image (blank 4 4)) ''in.png'' [97, 98, 99, 100]
              ''out.png'') = one_image (blank 4 4)"
proof -
  have u: "usable_characters (blank 4 4) = 3"
    by (simp add: usable_characters_def max_capacity_def)
  have o: "Image_open (one_image (blank 4 4)) ''in.png'' = Inr (blank 4 4)" by simp
  have l: "loadable (blank 4 4)" by simp
  from capacity_boundary [OF o l, of demo_pil "[97, 98, 99]" "''out.png''"]
  have 1: "returned (encode_image demo_pil (one_image (blank 4 4)) ''in.png'' [97, 98, 99]
                       ''out.png'')"
    by (simp add: Let_def u demo_pil_def)
  from capacity_boundary [OF o l, of read_only_pil "[97, 98, 99]" "''out.png''"]
  have 3: "\<not> returned (encode_image read_only_pil (one_image (blank 4 4)) ''in.png''
                         [97, 98, 99] ''out.png'')"
    by (simp add: Let_def u read_only_pil_def)
  from capacity_boundary [OF o l, of demo_pil "[97, 98, 99, 100]" "''out.png''"]
  have 2: "\<not> returned (encode_image demo_pil (one_image (blank 4 4)) ''in.png''
                         [97, 98, 99, 100] ''out.png'')
           \<and> files (encode_image demo_pil (one_image (blank 4 4)) ''in.png'' [97, 98, 99, 100]
              ''out.png'') = one_image (blank 4 4)"
    by (simp add: Let_def u)
  from 1 2 3 show ?thesis by simp
qed

theorem capacity_boundary_counterexample:
  "map_option max_characters (analyze_image_capacity (one_image (blank 4 4)) ''in.png'') = Some 3
   \<and> length [256, 256, 256 :: nat] = 3
   \<and> \<not> returned (encode_image demo_pil (one_image (blank 4 4)) ''in.png'' [256, 256, 256]
                   ''out.png'')"
proof -
  have o: "Image_open (one_image (blank 4 4)) ''in.png'' = Inr (blank 4 4)" by simp
  have a: "map_option max_characters (analyze_image_capacity (one_image (blank 4 4)) ''in.png'')
             = Some 3"
    using analyze_usable_characters [OF o] by (simp add: usable_characters_def max_capacity_def)
  have l: "length (to_binary ([256, 256, 256] @ delimiter)) = 51"
    by code_simp
  have "width (as_rgb demo_pil (blank 4 4)) * height (as_rgb demo_pil (blank 4 4)) * 3
          < length (to_binary ([256, 256, 256] @ delimiter))"
    unfolding l by simp
  from encode_image_refused [OF o _ this] a show ?thesis by simp
qed

section \<open>The cap on the search\<close>

lemma not_contains_replicate: "x \<noteq> 35 \<Longrightarrow> \<not> contains (replicate n x) delimiter"
  by (induction n) (simp_all add: delimiter_def)

lemma endswith_snoc: "endswith (xs @ [x]) [y] = (x = y)"
  by (simp add: endswith_def)

lemma not_endswith_replicate: "x \<noteq> 35 \<Longrightarrow> \<not> endswith (replicate n x) [35]"
proof (cases n)
  case 0
  then show ?thesis by (simp add: endswith_def)
next
  case (Suc k)
  assume x: "x \<noteq> 35"
  have r: "replicate (Suc k) x = replicate k x @ [x]"
    by (simp add: replicate_append_same)
  show ?thesis unfolding Suc r endswith_snoc using x .
qed

lemma take_within: "k \<le> length xs \<Longrightarrow> take k (xs @ ys) = take k xs"
  by simp

lemma decode_message_beyond_cap:
  assumes printable: "\<forall>c\<in>set m. 32 \<le> c \<and> c \<le> 126"
    and clean: "\<not> contains m delimiter" "\<not> endswith m [35]"
    and long: "6250 < length m + 3"
  shows "decode_message (to_binary (m @ delimiter) @ rest) = Some (take 6250 (m @ [35, 35]))"
proof -
  let ?bits = "to_binary (m @ delimiter) @ rest"
  let ?c = "take 6250 (m @ [35, 35])"
  have b: "\<forall>c\<in>set (m @ delimiter). c < 256"
    using printable by (auto simp: delimiter_def)
  have l: "\<not> length ?bits < 8"
    using length_stream_ge [of m] by simp
  have lc: "length ?c = 6250" using long by simp
  have "chars_of ?bits = (m @ delimiter) @ chars_of rest"
    by (rule chars_of_to_binary [OF b])
  also have "\<dots> = (m @ [35, 35]) @ 35 # chars_of rest"
    by (simp add: delimiter_def)
  finally have "take 6250 (chars_of ?bits) = take 6250 ((m @ [35, 35]) @ 35 # chars_of rest)"
    by (rule arg_cong)
  also have "\<dots> = ?c"
    using long by (intro take_within) simp
  finally have t: "take 6250 (chars_of ?bits) = ?c" .
  have nc: "\<not> contains (m @ [35, 35]) delimiter"
    using clean contains_with_two_hashes by blast
  have "\<forall>k. 0 < k \<and> k \<le> length ?c \<longrightarrow> \<not> endswith ([] @ take k ?c) delimiter"
  proof (intro allI impI notI)
    fix k
    assume "endswith ([] @ take k ?c) delimiter"
    then have "endswith (take (min k 6250) (m @ [35, 35])) delimiter"
      by (simp only: append_Nil take_take)
    then have "contains (m @ [35, 35]) delimiter" by (rule endswith_prefix_contains)
    with nc show False ..
  qed
  then have "scan_chars [] ?c = Exhausted ([] @ ?c)"
    by (rule scan_chars_not_found)
  then have "scan_chars [] (take 6250 (chars_of ?bits)) = Exhausted ?c"
    by (simp only: t append_Nil)
  then have c: "decode_chars ?bits (range8 (min (length ?bits) 50000)) [] = Exhausted ?c"
    by (simp only: decode_chars_range8)
  have "\<forall>c\<in>set ?c. 32 \<le> c \<and> c \<le> 126"
    using printable by (auto dest!: in_set_takeD)
  then have f: "filter (\<lambda>c. 32 \<le> c \<and> c \<le> 126) ?c = ?c"
    by (simp only: filter_True)
  have ne: "?c \<noteq> []" using lc by auto
  show ?thesis
    unfolding decode_message_def c using l ne by (simp only: if_False scan.case Let_def f lc) simp
qed

lemma decode_image_prefix:
  "decode_image fs image_path =
     (case Image_open fs image_path of
        Inl e \<Rightarrow> None
      | Inr img \<Rightarrow> decode_message (take 50000 (decode_bits img)))"
  by (simp add: decode_image_def decode_message_prefix [symmetric] split: sum.splits)

lemma decode_beyond_cap:
  assumes opened: "Image_open fs image_path = Inr opened"
    and loads: "loadable opened"
    and rgb: "rgb_image (as_rgb lib opened)"
    and writes: "can_save lib output_path"
    and fits: "length (to_binary (message @ delimiter)) \<le> max_capacity (as_rgb lib opened)"
    and printable: "\<forall>c\<in>set message. 32 \<le> c \<and> c \<le> 126"
    and clean: "\<not> contains message delimiter" "\<not> endswith message [35]"
    and long: "6250 < length message + 3"
  shows "returned (encode_image lib fs image_path message output_path)
       \<and> decode_image (files (encode_image lib fs image_path message output_path)) output_path
           = Some (take 6250 (message @ [35, 35]))"
proof -
  have f: "length (to_binary (message @ delimiter))
             \<le> width (as_rgb lib opened) * height (as_rgb lib opened) * 3"
    using fits by (simp add: max_capacity_def)
  have "returned (encode_image lib fs image_path message output_path)"
    using encode_image_success [OF opened loads rgb f writes] by simp
  moreover have "decode_image (files (encode_image lib fs image_path message output_path))
                   output_path = Some (take 6250 (message @ [35, 35]))"
    by (simp only: decode_encoded_file [OF opened loads rgb f writes]
          decode_message_beyond_cap [OF printable clean long])
  ultimately show ?thesis by simp
qed

text \<open>
  Claim C3, as the code has it. \<open>decode_image\<close> extracts the bits of the whole image and
  then searches for the delimiter in the first 50,000 of them; nothing searches further:
  what it returns is determined by the first 50,000 bits extracted. When the delimiter of
  an encoded message lies beyond the cap (the message and its delimiter have more than 6250
  characters), the delimiter is not found and the outcome is that of the heuristic on the
  first 6250 characters: for a message of printable characters that neither contains
  \<open>"###"\<close> nor ends with \<open>"#"\<close>, \<open>decode_image\<close> returns the first 6250 characters of the
  message with \<open>"##"\<close> appended. In the counterexample below a message of 6248 characters
  comes back with \<open>"##"\<close> at its end.
\<close>

theorem search_is_capped:
  "decode_image fs image_path =
     (case Image_open fs image_path of
        Inl e \<Rightarrow> None
      | Inr img \<Rightarrow> decode_message (take 50000 (decode_bits img)))
   \<and> (Image_open fs image_path = Inr opened \<and> loadable opened \<and> rgb_image (as_rgb lib opened)
        \<and> can_save lib output_path
        \<and> length (to_binary (message @ delimiter)) \<le> max_capacity (as_rgb lib opened)
        \<and> (\<forall>c\<in>set message. 32 \<le> c \<and> c \<le> 126)
        \<and> \<not> contains message delimiter \<and> \<not> endswith message [35]
        \<and> 6250 < length message + 3
      \<longrightarrow> returned (encode_image lib fs image_path message output_path)
          \<and> decode_image (files (encode_image lib fs image_path message output_path))
                output_path = Some (take 6250 (message @ [35, 35])))"
  using decode_image_prefix [of fs image_path]
    decode_beyond_cap [of fs image_path opened lib output_path message]
  by blast

theorem search_is_capped_witness:
  "returned (encode_image demo_pil (one_image (blank 130 130)) ''in.png'' (replicate 6300 98)
               ''out.png'')
   \<and> decode_image
        (files (encode_image demo_pil (one_image (blank 130 130)) ''in.png'' (replicate 6300 98)
                  ''out.png''))
        ''out.png'' = Some (replicate 6250 98)"
proof -
  let ?m = "replicate 6300 (98 :: nat)"
  have o: "Image_open (one_image (blank 130 130)) ''in.png'' = Inr (blank 130 130)" by simp
  have l: "loadable (blank 130 130)" by simp
  have r: "rgb_image (as_rgb demo_pil (blank 130 130))" by simp
  have w: "can_save demo_pil ''out.png''" by (simp add: demo_pil_def)
  have "length (to_binary (?m @ delimiter)) = 8 * (length ?m + 3)"
    by (rule length_stream) simp
  then have f: "length (to_binary (?m @ delimiter)) \<le> max_capacity (as_rgb demo_pil (blank 130 130))"
    by (simp add: max_capacity_def)
  have p: "\<forall>c\<in>set ?m. 32 \<le> c \<and> c \<le> 126" by simp
  have c: "\<not> contains ?m delimiter" "\<not> endswith ?m [35]"
    by (simp_all add: not_contains_replicate not_endswith_replicate)
  have g: "6250 < length ?m + 3" by simp
  have t: "take 6250 (?m @ [35, 35]) = replicate 6250 98" by simp
  from search_is_capped [where fs = "one_image (blank 130 130)" and image_path = "''in.png''"
      and opened = "blank 130 130" and lib = demo_pil and output_path = "''out.png''"
      and message = ?m]
    o l r w f p c g
  have "returned (encode_image demo_pil (one_image (blank 130 130)) ''in.png'' ?m ''out.png'')
      \<and> decode_image
           (files (encode_image demo_pil (one_image (blank 130 130)) ''in.png'' ?m ''out.png''))
           ''out.png'' = Some (take 6250 (?m @ [35, 35]))"
    by blast
  then show ?thesis by (simp only: t)
qed

theorem search_is_capped_counterexample:
  "length (to_binary (replicate 6248 97 @ delimiter)) = 50008
   \<and> returned (encode_image demo_pil (one_image (blank 130 130)) ''in.png'' (replicate 6248 97)
                 ''out.png'')
   \<and> decode_image
        (files (encode_image demo_pil (one_image (blank 130 130)) ''in.png'' (replicate 6248 97)
                  ''out.png''))
        ''out.png'' = Some (replicate 6248 97 @ [35, 35])"
proof -
  let ?m = "replicate 6248 (97 :: nat)"
  have o: "Image_open (one_image (blank 130 130)) ''in.png'' = Inr (blank 130 130)" by simp
  have l: "loadable (blank 130 130)" by simp
  have r: "rgb_image (as_rgb demo_pil (blank 130 130))" by simp
  have w: "can_save demo_pil ''out.png''" by (simp add: demo_pil_def)
  have "length (to_binary (?m @ delimiter)) = 8 * (length ?m + 3)"
    by (rule length_stream) simp
  then have n: "length (to_binary (?m @ delimiter)) = 50008"
    by simp
  then have f: "length (to_binary (?m @ delimiter)) \<le> max_capacity (as_rgb demo_pil (blank 130 130))"
    by (simp add: max_capacity_def)
  have p: "\<forall>c\<in>set ?m. 32 \<le> c \<and> c \<le> 126" by simp
  have c: "\<not> contains ?m delimiter" "\<not> endswith ?m [35]"
    by (simp_all add: not_contains_replicate not_endswith_replicate)
  have g: "6250 < length ?m + 3" by simp
  have t: "take 6250 (?m @ [35, 35]) = ?m @ [35, 35]" by simp
  from decode_beyond_cap [OF o l r w f p c g] n show ?thesis
    by (simp only: t)
qed

section \<open>The maximum reported on refusal\<close>

lemma refusal_reports_capacity_div_8:
  assumes "Image_open fs image_path = Inr opened" and "loadable opened"
    and "max_capacity (as_rgb lib opened) < length (to_binary (message @ delimiter))"
  shows "last (stdout (encode_image lib fs image_path message output_path))
           = MessageTooLarge (nat (usable_characters (as_rgb lib opened) + 3))
               (length message)"
proof -
  have "width (as_rgb lib opened) * height (as_rgb lib opened) * 3
          < length (to_binary (message @ delimiter))"
    using assms(3) by (simp add: max_capacity_def)
  from encode_image_refused [OF assms(1,2) this] show ?thesis
    by (simp add: usable_characters_def max_capacity_def)
qed

text \<open>
  Claim C4. On refusal \<open>encode_image\<close> prints \<open>max_capacity // 8\<close> as the maximum
  length, without the three characters of the delimiter that \<open>analyze_image_capacity\<close>
  subtracts. On a 10 by 10 image a message of 35 characters is refused with the line
  "Max length: 37 characters, your message: 35 characters", while the longest message that
  fits, and the value \<open>analyze_image_capacity\<close> reports, is 34.
\<close>

theorem reported_maximum_ignores_delimiter:
  "stdout (encode_image demo_pil (one_image (blank 10 10)) ''in.png'' (replicate 35 97) ''out.png'')
     = [MessageTooLarge 37 35]
   \<and> \<not> returned (encode_image demo_pil (one_image (blank 10 10)) ''in.png'' (replicate 35 97)
                   ''out.png'')
   \<and> map_option max_characters (analyze_image_capacity (one_image (blank 10 10)) ''in.png'')
       = Some 34"
proof -
  have o: "Image_open (one_image (blank 10 10)) ''in.png'' = Inr (blank 10 10)" by simp
  have a: "map_option max_characters (analyze_image_capacity (one_image (blank 10 10)) ''in.png'')
             = Some 34"
    using analyze_usable_characters [OF o] by (simp add: usable_characters_def max_capacity_def)
  have "length (to_binary (replicate 35 97 @ delimiter)) = 8 * (length (replicate 35 (97::nat)) + 3)"
    by (rule length_stream) simp
  then have "width (as_rgb demo_pil (blank 10 10))
               * height (as_rgb demo_pil (blank 10 10)) * 3
             < length (to_binary (replicate 35 97 @ delimiter))"
    by simp
  from encode_image_refused [OF o _ this] a show ?thesis by simp
qed

section \<open>The carrier is not written\<close>

lemma same_elsewhere_refl: "same_elsewhere e h h"
  by (simp add: same_elsewhere_def)

lemma same_elsewhere_trans:
  "same_elsewhere e h h' \<Longrightarrow> same_elsewhere e h' h'' \<Longrightarrow> same_elsewhere e h h''"
  by (simp add: same_elsewhere_def)

lemma same_elsewhere_update: "same_elsewhere e h (h[e := x])"
  by (simp add: same_elsewhere_def)

lemma encode_pixel_frame:
  "same_elsewhere encoded (heap s) (heap (snd (encode_pixel bm image0 encoded row col s)))"
  by (simp add: encode_pixel_def same_elsewhere_refl same_elsewhere_update
        split: sum.splits pixel.splits prod.splits)

lemma encode_cols_frame:
  "same_elsewhere encoded (heap s) (heap (encode_cols bm image0 encoded row cols s))"
proof (induction cols arbitrary: s)
  case Nil
  then show ?case by (simp add: same_elsewhere_refl)
next
  case (Cons col cols)
  obtain c s' where p: "encode_pixel bm image0 encoded row col s = (c, s')"
    by (cases "encode_pixel bm image0 encoded row col s")
  have 1: "same_elsewhere encoded (heap s) (heap s')"
    using encode_pixel_frame [of encoded s bm image0 row col] p by simp
  have 2: "same_elsewhere encoded (heap s') (heap (encode_cols bm image0 encoded row cols s'))"
    by (rule Cons.IH)
  show ?case
    using 1 same_elsewhere_trans [OF 1 2] by (simp add: p)
qed

lemma encode_rows_frame:
  "same_elsewhere encoded (heap s) (heap (encode_rows bm image0 encoded w rows s))"
proof (induction rows arbitrary: s)
  case Nil
  then show ?case by (simp add: same_elsewhere_refl)
next
  case (Cons row rows)
  let ?s' = "encode_cols bm image0 encoded row [0..<w] s"
  have 1: "same_elsewhere encoded (heap s) (heap ?s')"
    by (rule encode_cols_frame)
  have 2: "same_elsewhere encoded (heap ?s') (heap (encode_rows bm image0 encoded w rows ?s'))"
    by (rule Cons.IH)
  show ?case
    using 1 same_elsewhere_trans [OF 1 2] by (simp add: Let_def)
qed

text \<open>
  Claim C5. For every carrier that \<open>Image.open\<close> accepts and every message, whatever the
  outcome of the call: the object first opened is unchanged, and the file at \<open>image_path\<close>
  is as before unless the caller passes the same path as \<open>output_path\<close>. When the pixel
  data of the carrier can be decoded, the image object that \<open>image\<close> names is, after the
  call, what it was before the loop (the image as opened, converted to RGB if it was not),
  and \<open>encoded\<close> is another object than \<open>image\<close>, so every \<open>putpixel\<close> went to the copy.
  (When the data cannot be decoded, the call ends before any copy is made.) The witness is
  a call that writes: the copy has changed and the carrier has not.
\<close>

theorem carrier_not_mutated:
  assumes opened: "Image_open fs image_path = Inr opened"
  shows "let r = encode_image lib fs image_path message output_path
         in objects r \<noteq> [] \<and> objects r ! 0 = opened
          \<and> (output_path \<noteq> image_path \<longrightarrow> files r image_path = fs image_path)
          \<and> (loadable opened \<longrightarrow>
               carrier r < length (objects r) \<and> target r < length (objects r)
               \<and> target r \<noteq> carrier r
               \<and> objects r ! carrier r = as_rgb lib opened)"
proof (cases "loadable opened")
  case False
  from encode_image_not_loadable [OF opened False, of lib message output_path] False
  show ?thesis by (simp add: Let_def)
next
  case loads: True
  let ?img = "as_rgb lib opened"
  let ?bm = "to_binary (message @ delimiter)"
  have cv: "Image_convert_RGB lib opened = Inr ?img"
    using loads by (rule convert_loadable)
  have cp: "Image_copy ?img = Inr ?img"
    using loads by (intro copy_loadable loadable_as_rgb)
  show ?thesis
  proof (cases "width ?img * height ?img * 3 < length ?bm")
    case True
    from encode_image_refused [OF opened loads True, of output_path] show ?thesis
      by (simp add: Let_def nth_append as_rgb_def)
  next
    case fits: False
    show ?thesis
    proof (cases "mode opened = ''RGB''")
      case True
      then have io: "?img = opened" by (simp add: as_rgb_rgb)
      let ?init = "\<lparr>heap = [opened, opened], index = 0, modified_pixels = 0,
                   printed = [EncodingMessage (length message) (length ?bm),
                     ImageCapacity (width opened * height opened * 3)
                       (width opened * height opened * 3 div 8)],
                   raised = None\<rparr>"
      let ?s = "encode_rows ?bm 0 (Suc 0) (width opened) [0..<height opened] ?init"
      have "same_elsewhere (Suc 0) (heap ?init) (heap ?s)" by (rule encode_rows_frame)
      then have fr: "length (heap ?s) = 2" "heap ?s ! 0 = opened"
        by (simp_all add: same_elsewhere_def)
      then have ne: "heap ?s \<noteq> []" by auto
      show ?thesis
        using True fits fr ne cp [unfolded io] loads
        by (simp add: encode_image_def opened Let_def io nth_append Image_save_def
              split: option.splits sum.splits if_splits)
    next
      case False
      let ?init = "\<lparr>heap = [opened, ?img, ?img], index = 0, modified_pixels = 0,
                   printed = [Converting (mode opened),
                     EncodingMessage (length message) (length ?bm),
                     ImageCapacity (width ?img * height ?img * 3)
                       (width ?img * height ?img * 3 div 8)],
                   raised = None\<rparr>"
      let ?s = "encode_rows ?bm (Suc 0) (Suc (Suc 0)) (width ?img) [0..<height ?img] ?init"
      have "same_elsewhere (Suc (Suc 0)) (heap ?init) (heap ?s)" by (rule encode_rows_frame)
      then have fr: "length (heap ?s) = 3" "heap ?s ! 0 = opened" "heap ?s ! Suc 0 = ?img"
        by (simp_all add: same_elsewhere_def)
      then have ne: "heap ?s \<noteq> []" by auto
      show ?thesis
        using False fits fr ne cv cp loads
        by (simp add: encode_image_def opened Let_def nth_append Image_save_def
              split: option.splits sum.splits if_splits)
    qed
  qed
qed

theorem carrier_not_mutated_witness:
  "returned (encode_image demo_pil (one_image (blank 4 3)) ''in.png'' [35] ''out.png'')
   \<and> objects (encode_image demo_pil (one_image (blank 4 3)) ''in.png'' [35] ''out.png'')
       ! carrier (encode_image demo_pil (one_image (blank 4 3)) ''in.png'' [35] ''out.png'')
       = blank 4 3
   \<and> target (encode_image demo_pil (one_image (blank 4 3)) ''in.png'' [35] ''out.png'')
       \<noteq> carrier (encode_image demo_pil (one_image (blank 4 3)) ''in.png'' [35] ''out.png'')
   \<and> pixels (objects (encode_image demo_pil (one_image (blank 4 3)) ''in.png'' [35] ''out.png'')
        ! target (encode_image demo_pil (one_image (blank 4 3)) ''in.png'' [35] ''out.png''))
       ! 0 = Multi [0, 0, 1]
   \<and> files (encode_image demo_pil (one_image (blank 4 3)) ''in.png'' [35] ''out.png'') ''in.png''
       = Some (ImageFile (blank 4 3) 100)"
proof -
  have o: "Image_open (one_image (blank 4 3)) ''in.png'' = Inr (blank 4 3)" by simp
  have "length (to_binary ([35] @ delimiter)) = 8 * (length [35::nat] + 3)"
    by (rule length_stream) simp
  then have f: "length (to_binary ([35] @ delimiter))
                  \<le> width (as_rgb demo_pil (blank 4 3)) * height (as_rgb demo_pil (blank 4 3)) * 3"
    by simp
  have w: "can_save demo_pil ''out.png''" by (simp add: demo_pil_def)
  have p: "pixels (encoded_image (to_binary ([35] @ delimiter)) (blank 4 3)) ! 0 = Multi [0, 0, 1]"
    by code_simp
  from carrier_not_mutated [OF o, of demo_pil "[35]" "''out.png''"]
    encode_image_success [OF o _ _ f w] p
  show ?thesis
    by (simp add: Let_def one_image_def)
qed

section \<open>The self-check\<close>

text \<open>
  Claim C6. For a carrier whose pixel data can be decoded and a message whose bit stream
  fits, the value that \<open>encode_image\<close> returns does not depend on what \<open>verify_encoding\<close>
  returns on the encoded image: it is decided by the write of the output file alone, which
  comes after the self-check. When the file can be written, \<open>encode_image\<close> returns \<open>True\<close>
  and the file holds the encoded image whether the self-check succeeded or not, and the
  result of the self-check decides only the last line printed. When \<open>save\<close> raises,
  \<open>encode_image\<close> returns \<open>False\<close> and the last line is the error. The witness is a call in which the self-check fails (the message \<open>"#"\<close>), once
  with a file that can be written and once with one that cannot.
\<close>

theorem self_check_is_diagnostic:
  assumes opened: "Image_open fs image_path = Inr opened"
    and loads: "loadable opened"
    and rgb: "rgb_image (as_rgb lib opened)"
    and fits: "length (to_binary (message @ delimiter))
                 \<le> max_capacity (as_rgb lib opened)"
  shows "let enc = encoded_image (to_binary (message @ delimiter)) (as_rgb lib opened);
             r = encode_image lib fs image_path message output_path
         in returned r = can_save lib output_path
          \<and> objects r ! target r = enc
          \<and> (can_save lib output_path \<longrightarrow>
               files r = fs(output_path := Some (ImageFile enc (png_size lib enc)))
               \<and> last (stdout r) = (if verify_encoding enc message then VerificationSuccessful
                                     else VerificationWarning))
          \<and> (\<not> can_save lib output_path \<longrightarrow> last (stdout r) = ErrorEncoding OSError)"
proof -
  have "length (to_binary (message @ delimiter))
          \<le> width (as_rgb lib opened) * height (as_rgb lib opened) * 3"
    using fits by (simp add: max_capacity_def)
  from encode_image_fits [OF opened loads rgb this, of output_path] show ?thesis
    by (simp add: Let_def)
qed

theorem self_check_is_diagnostic_witness:
  "\<not> verify_encoding (encoded_image (to_binary ([35] @ delimiter)) (blank 4 3)) [35]
   \<and> returned (encode_image demo_pil (one_image (blank 4 3)) ''in.png'' [35] ''out.png'')
   \<and> Image_open (files (encode_image demo_pil (one_image (blank 4 3)) ''in.png'' [35] ''out.png''))
        ''out.png'' = Inr (encoded_image (to_binary ([35] @ delimiter)) (blank 4 3))
   \<and> last (stdout (encode_image demo_pil (one_image (blank 4 3)) ''in.png'' [35] ''out.png''))
       = VerificationWarning
   \<and> \<not> returned (encode_image read_only_pil (one_image (blank 4 3)) ''in.png'' [35] ''out.png'')
   \<and> last (stdout (encode_image read_only_pil (one_image (blank 4 3)) ''in.png'' [35]
                     ''out.png''))
       = ErrorEncoding OSError"
proof -
  have v: "\<not> verify_encoding (encoded_image (to_binary ([35] @ delimiter)) (blank 4 3)) [35]"
    by code_simp
  have o: "Image_open (one_image (blank 4 3)) ''in.png'' = Inr (blank 4 3)" by simp
  have l: "loadable (blank 4 3)" by simp
  have r: "rgb_image (as_rgb lib (blank 4 3))" for lib by simp
  have "length (to_binary ([35] @ delimiter)) = 8 * (length [35::nat] + 3)"
    by (rule length_stream) simp
  then have f: "length (to_binary ([35] @ delimiter))
                  \<le> max_capacity (as_rgb lib (blank 4 3))" for lib
    by (simp add: max_capacity_def)
  from self_check_is_diagnostic [OF o l r f, of demo_pil "''out.png''"]
    self_check_is_diagnostic [OF o l r f, of read_only_pil "''out.png''"] v
  show ?thesis
    by (simp add: Let_def Image_open_def demo_pil_def read_only_pil_def)
qed

section \<open>A candidate that is half printable\<close>

lemma lsb_of_bool: "lsb (of_bool b) = b"
  by (cases b) (simp_all add: lsb_def)

lemma lsb_stream_gray: "lsb_stream (map (\<lambda>b. Gray (of_bool b)) bits) = bits"
  by (induction bits) (simp_all add: lsb_stream_def pixel_bits_def lsb_of_bool)

lemma decode_bits_gray_row: "decode_bits (gray_row bits) = bits"
proof -
  have "decode_bits (gray_row bits) = lsb_stream (pixels (gray_row bits))"
    by (rule decode_bits_lsb_stream) (simp_all add: gray_row_def)
  then show ?thesis by (simp add: gray_row_def lsb_stream_gray)
qed

lemma chars_of_Nil: "chars_of [] = []"
  by (simp add: chars_of_def)

lemma chars_of_to_binary_all: "\<forall>c\<in>set s. c < 256 \<Longrightarrow> chars_of (to_binary s) = s"
  using chars_of_to_binary [of s "[]"] by (simp add: chars_of_Nil)

text \<open>
  Claim C7. The image \<open>half_printable\<close> carries the 32 bits of \<open>"ab\x00\x01"\<close>. The
  search ends without a delimiter, with these four characters as the candidate; two of
  them, exactly half, are printable. \<open>decode_image\<close> returns \<open>None\<close>, not \<open>"ab"\<close>: the
  test \<open>len(printable_chars) > len(decoded_message) * 0.5\<close> is strict, while the comment
  beside it says "at least 50%". (With three printable characters of four, \<open>"abc\x01"\<close>,
  the heuristic returns \<open>"abc"\<close>.)
\<close>

theorem exactly_half_printable_is_rejected:
  "decode_chars (decode_bits half_printable)
     (range8 (min (length (decode_bits half_printable)) 50000)) [] = Exhausted [97, 98, 0, 1]
   \<and> filter (\<lambda>c. 32 \<le> c \<and> c \<le> 126) [97, 98, 0, 1 :: nat] = [97, 98]
   \<and> 2 * length [97, 98 :: nat] = length [97, 98, 0, 1 :: nat]
   \<and> decode_image (one_image half_printable) ''in.png'' = None
   \<and> decode_image (one_image (gray_row (to_binary [97, 98, 99, 1]))) ''in.png''
       = Some [97, 98, 99]"
proof -
  let ?bits = "to_binary [97, 98, 0, 1]"
  have b: "decode_bits half_printable = ?bits"
    by (simp only: half_printable_def decode_bits_gray_row)
  have l: "length ?bits = 32"
    using length_to_binary [of "[97, 98, 0, 1]"] by simp
  have "chars_of ?bits = [97, 98, 0, 1]"
    by (rule chars_of_to_binary_all) simp
  then have "scan_chars [] (take 6250 (chars_of ?bits)) = Exhausted [97, 98, 0, 1]"
    by (simp add: delimiter_def)
  then have c: "decode_chars ?bits (range8 (min (length ?bits) 50000)) [] = Exhausted [97, 98, 0, 1]"
    by (simp only: decode_chars_range8)
  have d: "decode_message ?bits = None"
    unfolding decode_message_def c using l by simp
  let ?more = "to_binary [97, 98, 99, 1]"
  have l': "length ?more = 32"
    using length_to_binary [of "[97, 98, 99, 1]"] by simp
  have "chars_of ?more = [97, 98, 99, 1]"
    by (rule chars_of_to_binary_all) simp
  then have "scan_chars [] (take 6250 (chars_of ?more)) = Exhausted [97, 98, 99, 1]"
    by (simp add: delimiter_def)
  then have c': "decode_chars ?more (range8 (min (length ?more) 50000)) [] = Exhausted [97, 98, 99, 1]"
    by (simp only: decode_chars_range8)
  have d': "decode_message ?more = Some [97, 98, 99]"
    unfolding decode_message_def c' using l' by simp
  show ?thesis
    using c d d' by (simp add: b decode_image_def decode_bits_gray_row)
qed

section \<open>The message "hi" in a 10 by 10 image\<close>

text \<open>
  Claim C8. The image the encoder works on has three channels and 10 by 10 pixels (the
  carrier loads and the output file can be written). The bit stream of \<open>"hi"\<close> and the
  delimiter has 40 bits. \<open>encode_image\<close> returns \<open>True\<close> and reports 14 modified pixels,
  the number of pixels it has written with \<open>putpixel\<close> (the lines printed are given up to
  the last one, which is the result of the self-check); the image that \<open>encoded\<close> names is
  the carrier with the stream written into the last bits of its first pixels, the file
  written holds that image, every pixel after the first 14 is what it was in the carrier;
  and \<open>decode_image\<close> on that file returns \<open>"hi"\<close>.
\<close>

theorem hi_in_ten_by_ten:
  assumes opened: "Image_open fs image_path = Inr opened"
    and loads: "loadable opened"
    and rgb: "rgb_image (as_rgb lib opened)"
    and size: "width (as_rgb lib opened) = 10" "height (as_rgb lib opened) = 10"
    and writes: "can_save lib output_path"
  shows "let r = encode_image lib fs image_path [104, 105] output_path;
             enc = objects r ! target r
         in length (to_binary ([104, 105] @ delimiter)) = 40
          \<and> returned r
          \<and> butlast (stdout r) =
               (if mode opened \<noteq> ''RGB'' then [Converting (mode opened)] else []) @
               [EncodingMessage 2 40, ImageCapacity 300 37, EncodedSuccessfully 14,
                SavedAs ''PNG'']
          \<and> encoded_image (to_binary ([104, 105] @ delimiter)) (as_rgb lib opened) = enc
          \<and> Image_open (files r) output_path = Inr enc
          \<and> length (pixels enc) = 100
          \<and> drop 14 (pixels enc) = drop 14 (pixels (as_rgb lib opened))
          \<and> decode_image (files r) output_path = Some [104, 105]"
proof -
  let ?img = "as_rgb lib opened"
  let ?bm = "to_binary ([104, 105] @ delimiter)"
  let ?r = "encode_image lib fs image_path [104, 105] output_path"
  have bytes: "\<forall>c\<in>set [104, 105 :: nat]. c < 256" by simp
  have len: "length ?bm = 40"
    using length_stream [OF bytes] by simp
  have fits: "length ?bm \<le> width ?img * height ?img * 3"
    using len by (simp add: size)
  have pl: "length (pixels ?img) = 100"
    using rgb size by (simp add: rgb_image_def)
  have clean: "\<not> contains [104, 105 :: nat] delimiter" "\<not> endswith [104, 105 :: nat] [35]"
    by (simp_all add: delimiter_def endswith_def)
  have short: "length [104, 105 :: nat] + 3 \<le> 6250" by simp
  have dec: "decode_image (files ?r) output_path = Some [104, 105]"
    by (simp only: decode_encoded_file [OF opened loads rgb fits writes]
          decode_message_found [OF bytes clean short])
  have untouched: "drop 14 (pixels (encoded_image ?bm ?img)) = drop 14 (pixels ?img)"
  proof -
    have "length ?bm \<le> 3 * 14" using len by simp
    then have "drop 14 (embedded ?bm (height ?img * width ?img) (pixels ?img))
                 = drop 14 (pixels ?img)"
      by (rule drop_embedded)
    then show ?thesis by (simp add: encoded_image_def)
  qed
  show ?thesis
    using encode_image_success [OF opened loads rgb fits writes] dec untouched len pl
    by (simp add: Let_def size Image_open_def encoded_image_def)
qed

theorem hi_in_ten_by_ten_witness:
  "returned (encode_image demo_pil (one_image (blank 10 10)) ''in.png'' [104, 105] ''out.png'')
   \<and> butlast (stdout (encode_image demo_pil (one_image (blank 10 10)) ''in.png'' [104, 105]
                        ''out.png''))
       = [EncodingMessage 2 40, ImageCapacity 300 37, EncodedSuccessfully 14, SavedAs ''PNG'']
   \<and> drop 14 (pixels (objects (encode_image demo_pil (one_image (blank 10 10)) ''in.png''
                               [104, 105] ''out.png'')
                       ! target (encode_image demo_pil (one_image (blank 10 10)) ''in.png''
                                   [104, 105] ''out.png'')))
       = replicate 86 (Multi [0, 0, 0])
   \<and> decode_image
        (files (encode_image demo_pil (one_image (blank 10 10)) ''in.png'' [104, 105] ''out.png''))
        ''out.png'' = Some [104, 105]"
proof -
  have o: "Image_open (one_image (blank 10 10)) ''in.png'' = Inr (blank 10 10)" by simp
  have w: "can_save demo_pil ''out.png''" by (simp add: demo_pil_def)
  have d: "drop 14 (pixels (blank 10 10)) = replicate 86 (Multi [0, 0, 0])"
    by (simp add: blank_def)
  from hi_in_ten_by_ten [OF o _ _ _ _ w] d show ?thesis
    by (simp add: Let_def)
qed

end
